theory Spec2Isabelle
  imports Main "HOL-Library.Word" "HOL-Library.Monad_Syntax"
begin

unbundle bit_operations_syntax

section \<open>Memory accesses\<close>

text \<open>
  The framer and deframer of \<^verbatim>\<open>freedv_vhf_framing.c\<close> work on arrays of
  \<^verbatim>\<open>uint8_t\<close>. An array is a list of bytes; an access outside the array is
  undefined behaviour in C and is the value \<open>None\<close> here, so every function of the
  model returns an option and \<open>None\<close> means "the C program has left its arrays".
  The arrays handed to one call are assumed not to overlap.
\<close>

type_synonym byte = "8 word"

definition rd :: "'a list \<Rightarrow> nat \<Rightarrow> 'a option" where
  "rd xs i = (if i < length xs then Some (xs ! i) else None)"

definition wr :: "'a list \<Rightarrow> nat \<Rightarrow> 'a \<Rightarrow> 'a list option" where
  "wr xs i v = (if i < length xs then Some (xs[i := v]) else None)"

text \<open>\<^verbatim>\<open>memset(buf, 0, n)\<close>\<close>

definition memset0 :: "byte list \<Rightarrow> nat \<Rightarrow> byte list option" where
  "memset0 buf n = (if n \<le> length buf then Some (replicate n 0 @ drop n buf) else None)"

section \<open>Constants of the type A frame\<close>

text \<open>The UW of the VHF type A frame.\<close>

definition A_uw :: "byte list" where
  "A_uw = [0,1,1,0,0,1,1,1,
           1,0,1,0,1,1,0,1]"

text \<open>Blank VHF type A frame.\<close>

definition A_blank :: "byte list" where
  "A_blank = [1,0,1,0,0,1,1,1,
              1,0,1,0,0,1,1,1,
              0,0,0,0,0,0,0,0,
              0,0,0,0,0,0,0,0,
              0,0,0,0,0,0,0,0,
              0,1,1,0,0,1,1,1,
              1,0,1,0,1,1,0,1,
              0,0,0,0,0,0,0,0,
              0,0,0,0,0,0,0,0,
              0,0,0,0,0,0,0,0,
              0,0,0,0,0,0,1,0,
              0,1,1,1,0,0,1,0]"

definition ST_NOSYNC :: int where
  "ST_NOSYNC = 0"

definition ST_SYNC :: int where
  "ST_SYNC = 1"

text \<open>
  Modelled from the spec: the header \<^verbatim>\<open>freedv_vhf_framing.h\<close>, which defines the
  macro \<^verbatim>\<open>FREEDV_VHF_FRAME_A\<close> and \<^verbatim>\<open>struct freedv_vhf_deframer\<close>, is not among the
  sources. The spec knows one frame type, "Type A"; the source only compares a frame
  type with the macro, so its numeric value is immaterial. The struct's fields are the
  ones the source reads and writes. The counters \<^verbatim>\<open>bitptr\<close>, \<^verbatim>\<open>miss_cnt\<close>,
  \<^verbatim>\<open>last_uw\<close> and \<^verbatim>\<open>frame_size\<close> are C ints that the source only sets to 0,
  increments, or reduces by \<^verbatim>\<open>frame_size\<close> after testing that they are at least
  that large; they are natural numbers here.
\<close>

definition FREEDV_VHF_FRAME_A :: int where
  "FREEDV_VHF_FRAME_A = 1"

record freedv_vhf_deframer =
  ftype :: int
  state :: int
  bits :: "byte list"
  bitptr :: nat
  miss_cnt :: nat
  last_uw :: nat
  frame_size :: nat

section \<open>The framer\<close>

text \<open>
  \<^verbatim>\<open>#define UNPACK_BIT_MSBFIRST(bytes,bitidx) ((bytes)[(bitidx)>>3]>>(7-((bitidx)&0x7)))&0x1\<close>
\<close>

definition UNPACK_BIT_MSBFIRST :: "byte list \<Rightarrow> nat \<Rightarrow> byte option" where
  "UNPACK_BIT_MSBFIRST bytes bitidx =
     do { b \<leftarrow> rd bytes (drop_bit 3 bitidx);
          Some (drop_bit (7 - (bitidx AND 7)) b AND 1) }"

text \<open>
  A loop \<^verbatim>\<open>for(i=lo; i<hi; i++)\<close> is a recursion on the number \<open>n = hi - lo\<close> of
  iterations still to run, with the loop variables as further arguments.

  \<^verbatim>\<open>for(i=0; i<96; i++) bits_out[i] = A_blank[i];\<close>
\<close>

fun copy_blank :: "nat \<Rightarrow> nat \<Rightarrow> byte list \<Rightarrow> byte list option" where
  "copy_blank 0 i bits_out = Some bits_out"
| "copy_blank (Suc n) i bits_out =
     do { b \<leftarrow> rd A_blank i;
          bits_out \<leftarrow> wr bits_out i b;
          copy_blank n (Suc i) bits_out }"

text \<open>
  \<^verbatim>\<open>for(i=lo; i<hi; i++){ bits_out[i] = UNPACK_BIT_MSBFIRST(src,ibit); ibit++; }\<close>
\<close>

fun unpack_bits :: "byte list \<Rightarrow> nat \<Rightarrow> nat \<Rightarrow> nat \<Rightarrow> byte list \<Rightarrow> byte list option" where
  "unpack_bits src 0 i ibit bits_out = Some bits_out"
| "unpack_bits src (Suc n) i ibit bits_out =
     do { b \<leftarrow> UNPACK_BIT_MSBFIRST src ibit;
          bits_out \<leftarrow> wr bits_out i b;
          unpack_bits src n (Suc i) (Suc ibit) bits_out }"

text \<open>
  \<^verbatim>\<open>fvhff_frame_bits\<close>. A null \<^verbatim>\<open>proto_in\<close> or \<^verbatim>\<open>vc_in\<close> is \<open>None\<close>; the result is
  the array \<^verbatim>\<open>bits_out\<close> after the call. The second loop over a packed input goes
  on with the \<^verbatim>\<open>ibit\<close> the first one ended with (12 and 24).
\<close>

definition fvhff_frame_bits ::
  "int \<Rightarrow> byte list \<Rightarrow> byte list \<Rightarrow> byte list option \<Rightarrow> byte list option \<Rightarrow> byte list option" where
  "fvhff_frame_bits frame_type bits_out codec2_in proto_in vc_in =
     (if frame_type = FREEDV_VHF_FRAME_A then
        do { bits_out \<leftarrow> copy_blank 96 0 bits_out;
             bits_out \<leftarrow> (case vc_in of
                 None \<Rightarrow> Some bits_out
               | Some vc \<Rightarrow>
                   do { v0 \<leftarrow> rd vc 0;
                        bits_out \<leftarrow> wr bits_out 90 v0;
                        v1 \<leftarrow> rd vc 1;
                        wr bits_out 91 v1 });
             bits_out \<leftarrow> (case proto_in of
                 None \<Rightarrow> Some bits_out
               | Some proto \<Rightarrow>
                   do { bits_out \<leftarrow> unpack_bits proto 12 4 0 bits_out;
                        unpack_bits proto 8 84 12 bits_out });
             bits_out \<leftarrow> unpack_bits codec2_in 24 16 0 bits_out;
             unpack_bits codec2_in 28 56 24 bits_out }
      else Some bits_out)"

section \<open>The deframer\<close>

text \<open>
  \<^verbatim>\<open>fvhff_create_deframer\<close>. The two calls of \<^verbatim>\<open>malloc\<close> are modelled by their
  outcomes: whether the struct was allocated, and for the bit buffer either \<open>None\<close>
  (allocation failed) or the indeterminate initial contents of the 96 bytes, given as
  a function from the offset to the byte found there. The result \<open>None\<close> is the null
  pointer.
\<close>

definition fvhff_create_deframer ::
  "byte \<Rightarrow> bool \<Rightarrow> (nat \<Rightarrow> byte) option \<Rightarrow> freedv_vhf_deframer option" where
  "fvhff_create_deframer frame_type struct_allocated buffer =
     (if uint frame_type = FREEDV_VHF_FRAME_A then
        if \<not> struct_allocated then None
        else (case buffer of
            None \<Rightarrow> None
          | Some junk \<Rightarrow>
              Some \<lparr> ftype = uint frame_type, state = ST_NOSYNC,
                     bits = map junk [0..<96], bitptr = 0, miss_cnt = 0,
                     last_uw = 0, frame_size = 96 \<rparr>)
      else None)"

definition fvhff_synchronized :: "freedv_vhf_deframer \<Rightarrow> bool" where
  "fvhff_synchronized d = (state d = ST_SYNC)"

text \<open>
  The loop of \<^verbatim>\<open>fvhff_match_uw\<close>:
  \<^verbatim>\<open>for(iuw=0; iuw<uw_len; iuw++){ if(bits[ibit] != uw[iuw]) diff++; ibit++; if(ibit >= frame_size) ibit = 0; }\<close>
\<close>

fun match_uw_loop :: "byte list \<Rightarrow> byte list \<Rightarrow> nat \<Rightarrow> nat \<Rightarrow> nat \<Rightarrow> nat \<Rightarrow> nat \<Rightarrow> nat option" where
  "match_uw_loop ring uw fsize 0 iuw ibit diff = Some diff"
| "match_uw_loop ring uw fsize (Suc n) iuw ibit diff =
     do { b \<leftarrow> rd ring ibit;
          u \<leftarrow> rd uw iuw;
          let diff = (if b \<noteq> u then diff + 1 else diff);
          let ibit = ibit + 1;
          let ibit = (if ibit \<ge> fsize then 0 else ibit);
          match_uw_loop ring uw fsize n (Suc iuw) ibit diff }"

text \<open>
  \<^verbatim>\<open>fvhff_match_uw\<close>: the C int it returns is the truth value of
  \<^verbatim>\<open>diff <= tol\<close>, a \<open>bool\<close> here.
\<close>

definition fvhff_match_uw :: "freedv_vhf_deframer \<Rightarrow> nat \<Rightarrow> bool option" where
  "fvhff_match_uw d tol =
     (if ftype d = FREEDV_VHF_FRAME_A then
        do { let ibit = bitptr d + 40;
             let ibit = (if ibit \<ge> frame_size d then ibit - frame_size d else ibit);
             diff \<leftarrow> match_uw_loop (bits d) A_uw (frame_size d) 16 0 ibit 0;
             Some (diff \<le> tol) }
      else Some False)"

text \<open>
  The caller's output arrays of \<^verbatim>\<open>fvhff_extract_frame\<close> and \<^verbatim>\<open>fvhff_deframe_bits\<close>;
  a null \<^verbatim>\<open>proto_out\<close> or \<^verbatim>\<open>vc_out\<close> is \<open>None\<close>.
\<close>

record outputs =
  codec2_out :: "byte list"
  proto_out :: "byte list option"
  vc_out :: "byte list option"

text \<open>
  The packing loops of \<^verbatim>\<open>fvhff_extract_frame\<close>:
  \<^verbatim>\<open>for(;ibit<hi;ibit++){ out[ibit>>3] |= (bits[iframe]&0x1)<<(7-(ibit&0x7)); iframe++; if(iframe >= frame_size) iframe=0; }\<close>
  The shifted value is at most 128, so the conversion of the C int back to
  \<^verbatim>\<open>uint8_t\<close> loses nothing and the shift is the shift of a byte.
\<close>

fun pack_bits :: "byte list \<Rightarrow> nat \<Rightarrow> nat \<Rightarrow> nat \<Rightarrow> nat \<Rightarrow> byte list \<Rightarrow> byte list option" where
  "pack_bits ring fsize 0 iframe ibit out = Some out"
| "pack_bits ring fsize (Suc n) iframe ibit out =
     do { b \<leftarrow> rd ring iframe;
          old \<leftarrow> rd out (drop_bit 3 ibit);
          out \<leftarrow> wr out (drop_bit 3 ibit) (old OR push_bit (7 - (ibit AND 7)) (b AND 1));
          let iframe = iframe + 1;
          let iframe = (if iframe \<ge> fsize then 0 else iframe);
          pack_bits ring fsize n iframe (Suc ibit) out }"

text \<open>\<^verbatim>\<open>iframe = bitptr+off; if(iframe >= frame_size) iframe-=frame_size;\<close>\<close>

definition field_start :: "freedv_vhf_deframer \<Rightarrow> nat \<Rightarrow> nat" where
  "field_start d off =
     (let iframe = bitptr d + off
      in if iframe \<ge> frame_size d then iframe - frame_size d else iframe)"

text \<open>
  The side-channel block of \<^verbatim>\<open>fvhff_extract_frame\<close>:
  \<^verbatim>\<open>iframe = bitptr+90; if(iframe >= frame_size) iframe-=frame_size;
  vc_out[0] = bits[iframe]; iframe++; vc_out[1] = bits[iframe];\<close>
\<close>

definition extract_vc :: "freedv_vhf_deframer \<Rightarrow> byte list \<Rightarrow> byte list option" where
  "extract_vc d vc =
     do { let iframe = field_start d 90;
          b0 \<leftarrow> rd (bits d) iframe;
          vc \<leftarrow> wr vc 0 b0;
          let iframe = iframe + 1;
          b1 \<leftarrow> rd (bits d) iframe;
          wr vc 1 b1 }"

text \<open>The protocol block of \<^verbatim>\<open>fvhff_extract_frame\<close>.\<close>

definition extract_proto :: "freedv_vhf_deframer \<Rightarrow> byte list \<Rightarrow> byte list option" where
  "extract_proto d proto =
     do { proto \<leftarrow> memset0 proto 3;
          proto \<leftarrow> pack_bits (bits d) (frame_size d) 12 (field_start d 4) 0 proto;
          pack_bits (bits d) (frame_size d) 8 (field_start d 84) 12 proto }"

text \<open>The codec2 block of \<^verbatim>\<open>fvhff_extract_frame\<close>.\<close>

definition extract_codec2 :: "freedv_vhf_deframer \<Rightarrow> byte list \<Rightarrow> byte list option" where
  "extract_codec2 d codec2 =
     do { codec2 \<leftarrow> memset0 codec2 7;
          codec2 \<leftarrow> pack_bits (bits d) (frame_size d) 24 (field_start d 16) 0 codec2;
          pack_bits (bits d) (frame_size d) 28 (field_start d 56) 24 codec2 }"

definition fvhff_extract_frame :: "freedv_vhf_deframer \<Rightarrow> outputs \<Rightarrow> outputs option" where
  "fvhff_extract_frame d out =
     (if ftype d = FREEDV_VHF_FRAME_A then
        do { c \<leftarrow> extract_codec2 d (codec2_out out);
             v \<leftarrow> (case vc_out out of
                 None \<Rightarrow> Some None
               | Some vc \<Rightarrow> do { vc \<leftarrow> extract_vc d vc; Some (Some vc) });
             p \<leftarrow> (case proto_out out of
                 None \<Rightarrow> Some None
               | Some proto \<Rightarrow> do { proto \<leftarrow> extract_proto d proto; Some (Some proto) });
             Some \<lparr> codec2_out = c, proto_out = p, vc_out = v \<rparr> }
      else Some out)"

text \<open>
  The variables of the loop of \<^verbatim>\<open>fvhff_deframe_bits\<close>: the struct (its \<^verbatim>\<open>bits\<close>
  and \<^verbatim>\<open>bitptr\<close> are written in every iteration, so the local \<^verbatim>\<open>bitptr\<close> is always
  the struct's), the locals \<^verbatim>\<open>state\<close>, \<^verbatim>\<open>last_uw\<close>, \<^verbatim>\<open>miss_cnt\<close> and
  \<^verbatim>\<open>extracted_frame\<close>, and the output arrays. \<open>lv_events\<close> is a ghost counter that
  the C code does not have: the number of calls of \<^verbatim>\<open>fvhff_extract_frame\<close> so far.
\<close>

record loop_vars =
  lv_def :: freedv_vhf_deframer
  lv_state :: int
  lv_last_uw :: nat
  lv_miss_cnt :: nat
  lv_extracted_frame :: int
  lv_out :: outputs
  lv_events :: nat

text \<open>
  The head of the loop body, for the input bit \<open>b\<close>:
  \<^verbatim>\<open>bits[bitptr] = bits_in[i]; bitptr++; if(bitptr >= frame_size) bitptr = 0; def->bitptr = bitptr;\<close>
\<close>

definition put_bit :: "freedv_vhf_deframer \<Rightarrow> byte \<Rightarrow> freedv_vhf_deframer option" where
  "put_bit d b =
     do { ring \<leftarrow> wr (bits d) (bitptr d) b;
          let bp = bitptr d + 1;
          let bp = (if bp \<ge> frame_size d then 0 else bp);
          Some (d\<lparr> bits := ring, bitptr := bp \<rparr>) }"

text \<open>The body of the loop: the bit is stored, then the state machine is entered.\<close>

definition deframe_body :: "nat \<Rightarrow> nat \<Rightarrow> nat \<Rightarrow> byte \<Rightarrow> loop_vars \<Rightarrow> loop_vars option" where
  "deframe_body uw_first_tol uw_sync_tol miss_tol b lv =
     do { d \<leftarrow> put_bit (lv_def lv) b;
          if lv_state lv = ST_SYNC then
            (let luw = lv_last_uw lv + 1 in
             if luw = frame_size d then
               do { m \<leftarrow> fvhff_match_uw d uw_sync_tol;
                    let miss = (if \<not> m then lv_miss_cnt lv + 1 else 0);
                    let st = (if miss > miss_tol then ST_NOSYNC else lv_state lv);
                    out \<leftarrow> fvhff_extract_frame d (lv_out lv);
                    Some (lv\<lparr> lv_def := d, lv_state := st, lv_last_uw := 0,
                              lv_miss_cnt := miss, lv_extracted_frame := 1,
                              lv_out := out, lv_events := lv_events lv + 1 \<rparr>) }
             else Some (lv\<lparr> lv_def := d, lv_last_uw := luw \<rparr>))
          else
            do { m \<leftarrow> fvhff_match_uw d uw_first_tol;
                 if m then
                   do { out \<leftarrow> fvhff_extract_frame d (lv_out lv);
                        Some (lv\<lparr> lv_def := d, lv_state := ST_SYNC, lv_last_uw := 0,
                                  lv_miss_cnt := 0, lv_extracted_frame := 1,
                                  lv_out := out, lv_events := lv_events lv + 1 \<rparr>) }
                 else Some (lv\<lparr> lv_def := d \<rparr>) } }"

text \<open>
  \<^verbatim>\<open>for(i=0; i<frame_size; i++){ bits[bitptr] = bits_in[i]; ... }\<close>
\<close>

fun deframe_loop :: "nat \<Rightarrow> nat \<Rightarrow> nat \<Rightarrow> byte list \<Rightarrow> nat \<Rightarrow> nat \<Rightarrow> loop_vars \<Rightarrow> loop_vars option" where
  "deframe_loop t1 t2 mt bits_in 0 i lv = Some lv"
| "deframe_loop t1 t2 mt bits_in (Suc n) i lv =
     do { b \<leftarrow> rd bits_in i;
          lv \<leftarrow> deframe_body t1 t2 mt b lv;
          deframe_loop t1 t2 mt bits_in n (Suc i) lv }"

text \<open>
  The whole loop of one call, for frame type A: the tolerances are
  \<^verbatim>\<open>uw_first_tol = 2\<close>, \<^verbatim>\<open>uw_sync_tol = 1\<close> and \<^verbatim>\<open>miss_tol = 2\<close>.
\<close>

definition deframe_run :: "freedv_vhf_deframer \<Rightarrow> outputs \<Rightarrow> byte list \<Rightarrow> loop_vars option" where
  "deframe_run d out bits_in =
     deframe_loop 2 1 2 bits_in (frame_size d) 0
       \<lparr> lv_def = d, lv_state = state d, lv_last_uw = last_uw d, lv_miss_cnt = miss_cnt d,
         lv_extracted_frame = 0, lv_out = out, lv_events = 0 \<rparr>"

text \<open>
  \<^verbatim>\<open>fvhff_deframe_bits\<close>: the struct and the output arrays after the call, and the
  returned \<^verbatim>\<open>extracted_frame\<close>.
\<close>

definition fvhff_deframe_bits ::
  "freedv_vhf_deframer \<Rightarrow> outputs \<Rightarrow> byte list \<Rightarrow> (freedv_vhf_deframer \<times> outputs \<times> int) option" where
  "fvhff_deframe_bits d out bits_in =
     (if ftype d = FREEDV_VHF_FRAME_A then
        do { lv \<leftarrow> deframe_run d out bits_in;
             Some ((lv_def lv)\<lparr> state := lv_state lv, last_uw := lv_last_uw lv,
                                 miss_cnt := lv_miss_cnt lv \<rparr>,
                   lv_out lv, lv_extracted_frame lv) }
      else Some (d, out, 0))"

text \<open>The ghost count of the extractions of one call.\<close>

definition extraction_events :: "freedv_vhf_deframer \<Rightarrow> outputs \<Rightarrow> byte list \<Rightarrow> nat option" where
  "extraction_events d out bits_in =
     (if ftype d = FREEDV_VHF_FRAME_A then
        do { lv \<leftarrow> deframe_run d out bits_in; Some (lv_events lv) }
      else Some 0)"

section \<open>Notions used in the statements\<close>

text \<open>
  The struct after a call that started with the cursor at 0 has stored the first \<open>k\<close>
  bits of its input \<open>f\<close> (\<open>k\<close> at most the frame size): the ring holds these bits in
  front of what is left of its old contents, and the cursor is at \<open>k\<close>, wrapped.
\<close>

definition fed :: "freedv_vhf_deframer \<Rightarrow> byte list \<Rightarrow> nat \<Rightarrow> freedv_vhf_deframer" where
  "fed d f k = d\<lparr> bits := take k f @ drop k (bits d),
                  bitptr := (if k \<ge> frame_size d then 0 else k) \<rparr>"

text \<open>
  The unique-word test of the unsynchronized state (tolerance 2) succeeds before the
  last bit of the input \<open>f\<close> has arrived: at one of the cursor positions 1 to 95, on a
  ring that still holds old contents behind the cursor.
\<close>

definition early_sync :: "freedv_vhf_deframer \<Rightarrow> byte list \<Rightarrow> bool" where
  "early_sync d f = list_ex (\<lambda>k. fvhff_match_uw (fed d f k) 2 = Some True) [1..<frame_size d]"

text \<open>The caller's output arrays are large enough for what is written to them.\<close>

definition outputs_ok :: "outputs \<Rightarrow> bool" where
  "outputs_ok out =
     (7 \<le> length (codec2_out out)
      \<and> (case proto_out out of None \<Rightarrow> True | Some p \<Rightarrow> 3 \<le> length p)
      \<and> (case vc_out out of None \<Rightarrow> True | Some v \<Rightarrow> 2 \<le> length v))"

text \<open>
  The outputs hold the fields of the frame \<open>f\<close>, packed MSB first. Bit \<open>k\<close> of the payload
  (bit \<open>7 - k mod 8\<close> of byte \<open>k div 8\<close>) is the low bit of the frame entry 16 + \<open>k\<close> for
  \<open>k\<close> below 24 and of the entry 32 + \<open>k\<close> for \<open>k\<close> from 24 to 51; bit \<open>k\<close> of the protocol
  field, if it is requested, is the low bit of the frame entry 4 + \<open>k\<close> for \<open>k\<close> below 12 and
  of the entry 72 + \<open>k\<close> for \<open>k\<close> from 12 to 19; the 4 low-order bits of the last byte of
  either field are 0; the side-channel bytes, if they are requested, are the frame entries
  90 and 91.
\<close>

definition holds_fields :: "outputs \<Rightarrow> byte list \<Rightarrow> bool" where
  "holds_fields out f =
     (7 \<le> length (codec2_out out)
      \<and> list_all (\<lambda>k. bit (codec2_out out ! (k div 8)) (7 - k mod 8)
                        = bit (f ! (if k < 24 then 16 + k else 32 + k)) 0) [0..<52]
      \<and> codec2_out out ! 6 AND 0x0F = 0
      \<and> (case proto_out out of None \<Rightarrow> True
         | Some p \<Rightarrow> 3 \<le> length p
             \<and> list_all (\<lambda>k. bit (p ! (k div 8)) (7 - k mod 8)
                               = bit (f ! (if k < 12 then 4 + k else 72 + k)) 0) [0..<20]
             \<and> p ! 2 AND 0x0F = 0)
      \<and> (case vc_out out of None \<Rightarrow> True
         | Some v \<Rightarrow> 2 \<le> length v \<and> v ! 0 = f ! 90 \<and> v ! 1 = f ! 91))"


text \<open>All 16 bits of the unique word of a frame are the flipped bits of the UW.\<close>

definition uw_flipped :: "byte list \<Rightarrow> bool" where
  "uw_flipped f = (take 16 (drop 40 f) = map (\<lambda>u. u XOR 1) A_uw)"

text \<open>The deframers that \<^verbatim>\<open>fvhff_create_deframer\<close> and calls of \<^verbatim>\<open>fvhff_deframe_bits\<close> produce.\<close>

inductive reachable :: "freedv_vhf_deframer \<Rightarrow> bool" where
  created: "fvhff_create_deframer t ok buf = Some d \<Longrightarrow> reachable d"
| called: "reachable d \<Longrightarrow> fvhff_deframe_bits d out bits_in = Some (d', out', r) \<Longrightarrow> reachable d'"

section \<open>Sample data\<close>

text \<open>
  Concrete inputs at which the statements below are evaluated: 96 zero bits; the
  deframer that \<^verbatim>\<open>fvhff_create_deframer\<close> returns when the bit buffer it was given
  holds zeros; output arrays of the documented sizes; a payload and a protocol field.
\<close>

definition zero_bits :: "byte list" where
  "zero_bits =
     [0, 0, 0, 0, 0, 0, 0, 0,
      0, 0, 0, 0, 0, 0, 0, 0,
      0, 0, 0, 0, 0, 0, 0, 0,
      0, 0, 0, 0, 0, 0, 0, 0,
      0, 0, 0, 0, 0, 0, 0, 0,
      0, 0, 0, 0, 0, 0, 0, 0,
      0, 0, 0, 0, 0, 0, 0, 0,
      0, 0, 0, 0, 0, 0, 0, 0,
      0, 0, 0, 0, 0, 0, 0, 0,
      0, 0, 0, 0, 0, 0, 0, 0,
      0, 0, 0, 0, 0, 0, 0, 0,
      0, 0, 0, 0, 0, 0, 0, 0]"

definition idle_deframer :: freedv_vhf_deframer where
  "idle_deframer = \<lparr> ftype = FREEDV_VHF_FRAME_A, state = ST_NOSYNC, bits = zero_bits,
     bitptr = 0, miss_cnt = 0, last_uw = 0, frame_size = 96 \<rparr>"

definition sample_outputs :: outputs where
  "sample_outputs = \<lparr> codec2_out = [0, 0, 0, 0, 0, 0, 0], proto_out = Some [0, 0, 0],
     vc_out = Some [0, 0] \<rparr>"

definition sample_codec2 :: "byte list" where
  "sample_codec2 = [0x12, 0x34, 0x56, 0x78, 0x9A, 0xBC, 0xD0]"

definition sample_proto :: "byte list" where
  "sample_proto = [0xA7, 0x27, 0x20]"

text \<open>The frame of \<open>sample_codec2\<close> and \<open>sample_proto\<close>.\<close>

definition sample_frame :: "byte list" where
  "sample_frame =
     [1, 0, 1, 0, 1, 0, 1, 0,
      0, 1, 1, 1, 0, 0, 1, 0,
      0, 0, 0, 1, 0, 0, 1, 0,
      0, 0, 1, 1, 0, 1, 0, 0,
      0, 1, 0, 1, 0, 1, 1, 0,
      0, 1, 1, 0, 0, 1, 1, 1,
      1, 0, 1, 0, 1, 1, 0, 1,
      0, 1, 1, 1, 1, 0, 0, 0,
      1, 0, 0, 1, 1, 0, 1, 0,
      1, 0, 1, 1, 1, 1, 0, 0,
      1, 1, 0, 1, 0, 1, 1, 1,
      0, 0, 1, 0, 0, 0, 1, 0]"

text \<open>96 zero bits with the UW at the bits 0 to 15, at 1 to 16 and at 45 to 60.\<close>

definition uw_at_0 :: "byte list" where
  "uw_at_0 =
     [0, 1, 1, 0, 0, 1, 1, 1,
      1, 0, 1, 0, 1, 1, 0, 1,
      0, 0, 0, 0, 0, 0, 0, 0,
      0, 0, 0, 0, 0, 0, 0, 0,
      0, 0, 0, 0, 0, 0, 0, 0,
      0, 0, 0, 0, 0, 0, 0, 0,
      0, 0, 0, 0, 0, 0, 0, 0,
      0, 0, 0, 0, 0, 0, 0, 0,
      0, 0, 0, 0, 0, 0, 0, 0,
      0, 0, 0, 0, 0, 0, 0, 0,
      0, 0, 0, 0, 0, 0, 0, 0,
      0, 0, 0, 0, 0, 0, 0, 0]"

definition uw_at_1 :: "byte list" where
  "uw_at_1 =
     [0, 0, 1, 1, 0, 0, 1, 1,
      1, 1, 0, 1, 0, 1, 1, 0,
      1, 0, 0, 0, 0, 0, 0, 0,
      0, 0, 0, 0, 0, 0, 0, 0,
      0, 0, 0, 0, 0, 0, 0, 0,
      0, 0, 0, 0, 0, 0, 0, 0,
      0, 0, 0, 0, 0, 0, 0, 0,
      0, 0, 0, 0, 0, 0, 0, 0,
      0, 0, 0, 0, 0, 0, 0, 0,
      0, 0, 0, 0, 0, 0, 0, 0,
      0, 0, 0, 0, 0, 0, 0, 0,
      0, 0, 0, 0, 0, 0, 0, 0]"

definition uw_at_45 :: "byte list" where
  "uw_at_45 =
     [0, 0, 0, 0, 0, 0, 0, 0,
      0, 0, 0, 0, 0, 0, 0, 0,
      0, 0, 0, 0, 0, 0, 0, 0,
      0, 0, 0, 0, 0, 0, 0, 0,
      0, 0, 0, 0, 0, 0, 0, 0,
      0, 0, 0, 0, 0, 0, 1, 1,
      0, 0, 1, 1, 1, 1, 0, 1,
      0, 1, 1, 0, 1, 0, 0, 0,
      0, 0, 0, 0, 0, 0, 0, 0,
      0, 0, 0, 0, 0, 0, 0, 0,
      0, 0, 0, 0, 0, 0, 0, 0,
      0, 0, 0, 0, 0, 0, 0, 0]"

text \<open>
  The frame of \<open>sample_codec2\<close> and \<open>sample_proto\<close> with the flipped UW in the place of
  the UW, and the outputs that hold the fields of this frame and of \<open>sample_frame\<close>.
\<close>

definition bad_uw_frame :: "byte list" where
  "bad_uw_frame =
     [1, 0, 1, 0, 1, 0, 1, 0,
      0, 1, 1, 1, 0, 0, 1, 0,
      0, 0, 0, 1, 0, 0, 1, 0,
      0, 0, 1, 1, 0, 1, 0, 0,
      0, 1, 0, 1, 0, 1, 1, 0,
      1, 0, 0, 1, 1, 0, 0, 0,
      0, 1, 0, 1, 0, 0, 1, 0,
      0, 1, 1, 1, 1, 0, 0, 0,
      1, 0, 0, 1, 1, 0, 1, 0,
      1, 0, 1, 1, 1, 1, 0, 0,
      1, 1, 0, 1, 0, 1, 1, 1,
      0, 0, 1, 0, 0, 0, 1, 0]"

definition sample_extracted :: outputs where
  "sample_extracted = \<lparr> codec2_out = [0x12, 0x34, 0x56, 0x78, 0x9A, 0xBC, 0xD0],
     proto_out = Some [0xA7, 0x27, 0x20], vc_out = Some [1, 0] \<rparr>"

text \<open>
  The frame of the payload \<^verbatim>\<open>67 AD 00 00 00 00 00\<close>, whose first 16 bits are the UW, and
  of \<open>sample_proto\<close>.
\<close>

definition uw_payload_frame :: "byte list" where
  "uw_payload_frame =
     [1, 0, 1, 0, 1, 0, 1, 0,
      0, 1, 1, 1, 0, 0, 1, 0,
      0, 1, 1, 0, 0, 1, 1, 1,
      1, 0, 1, 0, 1, 1, 0, 1,
      0, 0, 0, 0, 0, 0, 0, 0,
      0, 1, 1, 0, 0, 1, 1, 1,
      1, 0, 1, 0, 1, 1, 0, 1,
      0, 0, 0, 0, 0, 0, 0, 0,
      0, 0, 0, 0, 0, 0, 0, 0,
      0, 0, 0, 0, 0, 0, 0, 0,
      0, 0, 0, 0, 0, 1, 1, 1,
      0, 0, 1, 0, 0, 0, 1, 0]"

text \<open>A ring of 96 bytes that all hold 1.\<close>

definition one_bits :: "byte list" where
  "one_bits = map (\<lambda>_. 1) zero_bits"

section \<open>Basic facts about the memory accesses\<close>

lemma rd_Some [simp]: "i < length xs \<Longrightarrow> rd xs i = Some (xs ! i)"
  by (simp add: rd_def)

lemma wr_Some [simp]: "i < length xs \<Longrightarrow> wr xs i v = Some (xs[i := v])"
  by (simp add: wr_def)

lemma rd_None [simp]: "length xs \<le> i \<Longrightarrow> rd xs i = None"
  by (simp add: rd_def)

lemma wr_None [simp]: "length xs \<le> i \<Longrightarrow> wr xs i v = None"
  by (simp add: wr_def)

section \<open>Bit indices\<close>

lemma nat_shift3 [simp]: "drop_bit 3 (n::nat) = n div 8"
  by (simp add: drop_bit_eq_div)

lemma nat_and7 [simp]: "(n::nat) AND 7 = n mod 8"
proof -
  have "n AND 7 = take_bit 3 n"
    by (simp add: take_bit_eq_mask mask_eq_exp_minus_1)
  then show ?thesis by (simp add: take_bit_eq_mod)
qed

section \<open>The loops of the framer\<close>

lemma UNPACK_Some:
  "bitidx div 8 < length bytes \<Longrightarrow>
   UNPACK_BIT_MSBFIRST bytes bitidx
     = Some (drop_bit (7 - bitidx mod 8) (bytes ! (bitidx div 8)) AND 1)"
  by (simp add: UNPACK_BIT_MSBFIRST_def)

lemma copy_blank_nth:
  "i + n \<le> length A_blank \<Longrightarrow> i + n \<le> length out \<Longrightarrow>
   \<exists>out'. copy_blank n i out = Some out' \<and> length out' = length out \<and>
     (\<forall>j. out' ! j = (if i \<le> j \<and> j < i + n then A_blank ! j else out ! j))"
proof (induction n arbitrary: i out)
  case 0
  then show ?case by auto
next
  case (Suc n)
  from Suc.prems have b: "i < length A_blank" "i < length out" by simp_all
  from Suc.prems have "Suc i + n \<le> length A_blank" "Suc i + n \<le> length (out[i := A_blank ! i])"
    by simp_all
  from Suc.IH [OF this] obtain out' where
    o: "copy_blank n (Suc i) (out[i := A_blank ! i]) = Some out'"
       "length out' = length out"
       "\<forall>j. out' ! j = (if Suc i \<le> j \<and> j < Suc i + n then A_blank ! j else out[i := A_blank ! i] ! j)"
    by auto
  have "\<forall>j. out' ! j = (if i \<le> j \<and> j < i + Suc n then A_blank ! j else out ! j)"
    using o(3) b(2) by (auto simp: nth_list_update)
  with o(1,2) b show ?case by simp
qed

lemma unpack_bits_nth:
  "i + n \<le> length out \<Longrightarrow> ibit + n \<le> 8 * length src \<Longrightarrow>
   \<exists>out'. unpack_bits src n i ibit out = Some out' \<and> length out' = length out \<and>
     (\<forall>j. i \<le> j \<and> j < i + n \<longrightarrow> Some (out' ! j) = UNPACK_BIT_MSBFIRST src (ibit + (j - i))) \<and>
     (\<forall>j. \<not> (i \<le> j \<and> j < i + n) \<longrightarrow> out' ! j = out ! j)"
proof (induction n arbitrary: i ibit out)
  case 0
  then show ?case by auto
next
  case (Suc n)
  from Suc.prems have b: "ibit div 8 < length src" "i < length out" by auto
  define v where "v = drop_bit (7 - ibit mod 8) (src ! (ibit div 8)) AND 1"
  have u: "UNPACK_BIT_MSBFIRST src ibit = Some v"
    using b by (simp add: UNPACK_Some v_def)
  from Suc.prems have "Suc i + n \<le> length (out[i := v])" "Suc ibit + n \<le> 8 * length src"
    by simp_all
  from Suc.IH [OF this] obtain out' where
    o: "unpack_bits src n (Suc i) (Suc ibit) (out[i := v]) = Some out'"
       "length out' = length out"
       "\<forall>j. Suc i \<le> j \<and> j < Suc i + n \<longrightarrow> Some (out' ! j) = UNPACK_BIT_MSBFIRST src (Suc ibit + (j - Suc i))"
       "\<forall>j. \<not> (Suc i \<le> j \<and> j < Suc i + n) \<longrightarrow> out' ! j = out[i := v] ! j"
    by auto
  have 1: "\<forall>j. i \<le> j \<and> j < i + Suc n \<longrightarrow> Some (out' ! j) = UNPACK_BIT_MSBFIRST src (ibit + (j - i))"
  proof (intro allI impI)
    fix j assume j: "i \<le> j \<and> j < i + Suc n"
    show "Some (out' ! j) = UNPACK_BIT_MSBFIRST src (ibit + (j - i))"
    proof (cases "j = i")
      case True
      with o(4) b(2) u show ?thesis by simp
    next
      case False
      with j have "Suc i \<le> j \<and> j < Suc i + n" by simp
      moreover from False j have "Suc ibit + (j - Suc i) = ibit + (j - i)" by arith
      ultimately show ?thesis using o(3) by metis
    qed
  qed
  have 2: "\<forall>j. \<not> (i \<le> j \<and> j < i + Suc n) \<longrightarrow> out' ! j = out ! j"
    using o(4) by (auto simp: nth_list_update)
  from u b o(1,2) 1 2 show ?case by simp
qed

lemma A_blank_length [simp]: "length A_blank = 96"
  by (simp add: A_blank_def)

lemma A_uw_length [simp]: "length A_uw = 16"
  by (simp add: A_uw_def)

text \<open>The frame after the template has been copied and the side channel written.\<close>

lemma frame_bits_vc:
  assumes "96 \<le> length bits_out" "case vc_in of None \<Rightarrow> True | Some vc \<Rightarrow> 2 \<le> length vc"
  shows "\<exists>out. (copy_blank 96 0 bits_out \<bind> (\<lambda>bo. case vc_in of None \<Rightarrow> Some bo
            | Some vc \<Rightarrow> do { v0 \<leftarrow> rd vc 0; bo \<leftarrow> wr bo 90 v0; v1 \<leftarrow> rd vc 1; wr bo 91 v1 })) = Some out
          \<and> length out = length bits_out
          \<and> (\<forall>j. j \<noteq> 90 \<and> j \<noteq> 91 \<longrightarrow> out ! j = (if j < 96 then A_blank ! j else bits_out ! j))
          \<and> out ! 90 = (case vc_in of None \<Rightarrow> A_blank ! 90 | Some vc \<Rightarrow> vc ! 0)
          \<and> out ! 91 = (case vc_in of None \<Rightarrow> A_blank ! 91 | Some vc \<Rightarrow> vc ! 1)"
proof -
  from copy_blank_nth [of 0 96 bits_out] assms(1) obtain o1 where
    o1: "copy_blank 96 0 bits_out = Some o1" "length o1 = length bits_out"
        "\<forall>j. o1 ! j = (if j < 96 then A_blank ! j else bits_out ! j)"
    by auto
  show ?thesis
  proof (cases vc_in)
    case None
    with o1 show ?thesis by simp
  next
    case (Some vc)
    with assms(2) have "0 < length vc" "1 < length vc" by auto
    with o1 Some assms(1) show ?thesis by (simp add: nth_list_update)
  qed
qed

lemma frame_bits_A:
  assumes len: "96 \<le> length bits_out" "7 \<le> length codec2_in"
    and vc: "case vc_in of None \<Rightarrow> True | Some vc \<Rightarrow> 2 \<le> length vc"
    and pr: "case proto_in of None \<Rightarrow> True | Some proto \<Rightarrow> 3 \<le> length proto"
  obtains out where
    "fvhff_frame_bits FREEDV_VHF_FRAME_A bits_out codec2_in proto_in vc_in = Some out"
    "length out = length bits_out"
    "\<And>j. 96 \<le> j \<Longrightarrow> out ! j = bits_out ! j"
    "\<And>j. j < 4 \<or> (40 \<le> j \<and> j < 56) \<or> (92 \<le> j \<and> j < 96) \<Longrightarrow> out ! j = A_blank ! j"
    "\<And>k. k < 24 \<Longrightarrow> Some (out ! (16 + k)) = UNPACK_BIT_MSBFIRST codec2_in k"
    "\<And>k. k < 28 \<Longrightarrow> Some (out ! (56 + k)) = UNPACK_BIT_MSBFIRST codec2_in (24 + k)"
    "\<And>proto k. proto_in = Some proto \<Longrightarrow> k < 12 \<Longrightarrow>
        Some (out ! (4 + k)) = UNPACK_BIT_MSBFIRST proto k"
    "\<And>proto k. proto_in = Some proto \<Longrightarrow> k < 8 \<Longrightarrow>
        Some (out ! (84 + k)) = UNPACK_BIT_MSBFIRST proto (12 + k)"
    "\<And>j. proto_in = None \<Longrightarrow> (4 \<le> j \<and> j < 16) \<or> (84 \<le> j \<and> j < 90) \<Longrightarrow>
        out ! j = A_blank ! j"
    "proto_in = None \<Longrightarrow> out ! 90 = (case vc_in of None \<Rightarrow> A_blank ! 90 | Some vc \<Rightarrow> vc ! 0)"
    "proto_in = None \<Longrightarrow> out ! 91 = (case vc_in of None \<Rightarrow> A_blank ! 91 | Some vc \<Rightarrow> vc ! 1)"
proof -
  from frame_bits_vc [OF len(1) vc] obtain o1 where
    o1: "(copy_blank 96 0 bits_out \<bind> (\<lambda>bo. case vc_in of None \<Rightarrow> Some bo
            | Some vc \<Rightarrow> do { v0 \<leftarrow> rd vc 0; bo \<leftarrow> wr bo 90 v0; v1 \<leftarrow> rd vc 1; wr bo 91 v1 })) = Some o1"
        "length o1 = length bits_out"
        "\<forall>j. j \<noteq> 90 \<and> j \<noteq> 91 \<longrightarrow> o1 ! j = (if j < 96 then A_blank ! j else bits_out ! j)"
        "o1 ! 90 = (case vc_in of None \<Rightarrow> A_blank ! 90 | Some vc \<Rightarrow> vc ! 0)"
        "o1 ! 91 = (case vc_in of None \<Rightarrow> A_blank ! 91 | Some vc \<Rightarrow> vc ! 1)"
    by blast
  define stage2 where "stage2 = (case proto_in of None \<Rightarrow> Some o1
     | Some proto \<Rightarrow> do { bo \<leftarrow> unpack_bits proto 12 4 0 o1; unpack_bits proto 8 84 12 bo })"
  have "\<exists>o2. stage2 = Some o2 \<and> length o2 = length bits_out
      \<and> (\<forall>j. \<not> (4 \<le> j \<and> j < 16) \<and> \<not> (84 \<le> j \<and> j < 92) \<longrightarrow> o2 ! j = o1 ! j)
      \<and> (proto_in = None \<longrightarrow> o2 = o1)
      \<and> (\<forall>proto k. proto_in = Some proto \<and> k < 12 \<longrightarrow> Some (o2 ! (4 + k)) = UNPACK_BIT_MSBFIRST proto k)
      \<and> (\<forall>proto k. proto_in = Some proto \<and> k < 8 \<longrightarrow> Some (o2 ! (84 + k)) = UNPACK_BIT_MSBFIRST proto (12 + k))"
  proof (cases proto_in)
    case None
    then show ?thesis by (simp add: stage2_def o1(2))
  next
    case (Some proto)
    with pr have lp: "3 \<le> length proto" by simp
    from unpack_bits_nth [of 4 12 o1 0 proto] o1(2) lp len(1) obtain a where
      a: "unpack_bits proto 12 4 0 o1 = Some a" "length a = length bits_out"
         "\<forall>j. 4 \<le> j \<and> j < 4 + 12 \<longrightarrow> Some (a ! j) = UNPACK_BIT_MSBFIRST proto (0 + (j - 4))"
         "\<forall>j. \<not> (4 \<le> j \<and> j < 4 + 12) \<longrightarrow> a ! j = o1 ! j"
      by auto
    from unpack_bits_nth [of 84 8 a 12 proto] a(2) lp len(1) obtain b where
      b: "unpack_bits proto 8 84 12 a = Some b" "length b = length bits_out"
         "\<forall>j. 84 \<le> j \<and> j < 84 + 8 \<longrightarrow> Some (b ! j) = UNPACK_BIT_MSBFIRST proto (12 + (j - 84))"
         "\<forall>j. \<not> (84 \<le> j \<and> j < 84 + 8) \<longrightarrow> b ! j = a ! j"
      by auto
    have s: "stage2 = Some b" by (simp add: stage2_def Some a(1) b(1))
    have 1: "\<forall>j. \<not> (4 \<le> j \<and> j < 16) \<and> \<not> (84 \<le> j \<and> j < 92) \<longrightarrow> b ! j = o1 ! j"
      using a(4) b(4) by simp
    have 2: "\<forall>k. k < 12 \<longrightarrow> Some (b ! (4 + k)) = UNPACK_BIT_MSBFIRST proto k"
      using a(3) b(4) by simp
    have 3: "\<forall>k. k < 8 \<longrightarrow> Some (b ! (84 + k)) = UNPACK_BIT_MSBFIRST proto (12 + k)"
      using b(3) by simp
    from s b(2) 1 2 3 Some show ?thesis by simp
  qed
  then obtain o2 where
    o2: "stage2 = Some o2" "length o2 = length bits_out"
        "\<forall>j. \<not> (4 \<le> j \<and> j < 16) \<and> \<not> (84 \<le> j \<and> j < 92) \<longrightarrow> o2 ! j = o1 ! j"
        "proto_in = None \<longrightarrow> o2 = o1"
        "\<forall>proto k. proto_in = Some proto \<and> k < 12 \<longrightarrow> Some (o2 ! (4 + k)) = UNPACK_BIT_MSBFIRST proto k"
        "\<forall>proto k. proto_in = Some proto \<and> k < 8 \<longrightarrow> Some (o2 ! (84 + k)) = UNPACK_BIT_MSBFIRST proto (12 + k)"
    by blast
  from unpack_bits_nth [of 16 24 o2 0 codec2_in] o2(2) len obtain o3 where
    o3: "unpack_bits codec2_in 24 16 0 o2 = Some o3" "length o3 = length bits_out"
        "\<forall>j. 16 \<le> j \<and> j < 16 + 24 \<longrightarrow> Some (o3 ! j) = UNPACK_BIT_MSBFIRST codec2_in (0 + (j - 16))"
        "\<forall>j. \<not> (16 \<le> j \<and> j < 16 + 24) \<longrightarrow> o3 ! j = o2 ! j"
    by auto
  from unpack_bits_nth [of 56 28 o3 24 codec2_in] o3(2) len obtain o4 where
    o4: "unpack_bits codec2_in 28 56 24 o3 = Some o4" "length o4 = length bits_out"
        "\<forall>j. 56 \<le> j \<and> j < 56 + 28 \<longrightarrow> Some (o4 ! j) = UNPACK_BIT_MSBFIRST codec2_in (24 + (j - 56))"
        "\<forall>j. \<not> (56 \<le> j \<and> j < 56 + 28) \<longrightarrow> o4 ! j = o3 ! j"
    by auto
  have r: "fvhff_frame_bits FREEDV_VHF_FRAME_A bits_out codec2_in proto_in vc_in = Some o4"
    using o1(1) o2(1) o3(1) o4(1)
    by (auto simp: fvhff_frame_bits_def stage2_def bind_eq_Some_conv)
  show thesis
  proof (rule that [OF r o4(2)])
    fix j :: nat assume "96 \<le> j"
    then show "o4 ! j = bits_out ! j"
      using o4(4) o3(4) o2(3) o1(3) by auto
  next
    fix j :: nat assume "j < 4 \<or> (40 \<le> j \<and> j < 56) \<or> (92 \<le> j \<and> j < 96)"
    then show "o4 ! j = A_blank ! j"
      using o4(4) o3(4) o2(3) o1(3) by auto
  next
    fix k :: nat assume "k < 24"
    then show "Some (o4 ! (16 + k)) = UNPACK_BIT_MSBFIRST codec2_in k"
      using o4(4) o3(3) by simp
  next
    fix k :: nat assume "k < 28"
    then show "Some (o4 ! (56 + k)) = UNPACK_BIT_MSBFIRST codec2_in (24 + k)"
      using o4(3) by simp
  next
    fix proto and k :: nat assume "proto_in = Some proto" "k < 12"
    then show "Some (o4 ! (4 + k)) = UNPACK_BIT_MSBFIRST proto k"
      using o4(4) o3(4) o2(5) by simp
  next
    fix proto and k :: nat assume "proto_in = Some proto" "k < 8"
    then show "Some (o4 ! (84 + k)) = UNPACK_BIT_MSBFIRST proto (12 + k)"
      using o4(4) o3(4) o2(6) by simp
  next
    fix j :: nat assume "proto_in = None" "(4 \<le> j \<and> j < 16) \<or> (84 \<le> j \<and> j < 90)"
    then show "o4 ! j = A_blank ! j"
      using o4(4) o3(4) o2(4) o1(3) by auto
  next
    assume "proto_in = None"
    then show "o4 ! 90 = (case vc_in of None \<Rightarrow> A_blank ! 90 | Some vc \<Rightarrow> vc ! 0)"
      using o4(4) o3(4) o2(4) o1(4) by simp
  next
    assume "proto_in = None"
    then show "o4 ! 91 = (case vc_in of None \<Rightarrow> A_blank ! 91 | Some vc \<Rightarrow> vc ! 1)"
      using o4(4) o3(4) o2(4) o1(5) by simp
  qed
qed

section \<open>The unique-word test\<close>

lemma match_uw_loop_count:
  assumes "ibit < fsize" "fsize \<le> length ring" "iuw + n \<le> length uw"
  shows "match_uw_loop ring uw fsize n iuw ibit diff =
     Some (diff + length (filter (\<lambda>j. ring ! ((ibit + j) mod fsize) \<noteq> uw ! (iuw + j)) [0..<n]))"
  using assms
proof (induction n arbitrary: iuw ibit diff)
  case 0
  then show ?case by simp
next
  case (Suc n)
  let ?ibit' = "if ibit + 1 \<ge> fsize then 0 else ibit + 1"
  have w: "?ibit' = Suc ibit mod fsize"
    using Suc.prems(1) by (auto simp: le_Suc_eq)
  have lt: "?ibit' < fsize" using Suc.prems(1) by auto
  have shift: "\<And>j. (?ibit' + j) mod fsize = (ibit + Suc j) mod fsize"
    unfolding w by (simp add: mod_add_left_eq)
  have "[0..<Suc n] = 0 # [Suc 0..<Suc n]"
    by (rule upt_conv_Cons) simp
  then have up: "[0..<Suc n] = 0 # map Suc [0..<n]"
    by (simp only: map_Suc_upt)
  have "match_uw_loop ring uw fsize (Suc n) iuw ibit diff =
      match_uw_loop ring uw fsize n (Suc iuw) ?ibit'
        (if ring ! ibit \<noteq> uw ! iuw then diff + 1 else diff)"
    using Suc.prems by (simp add: Let_def)
  also have "\<dots> = Some ((if ring ! ibit \<noteq> uw ! iuw then diff + 1 else diff)
      + length (filter (\<lambda>j. ring ! ((?ibit' + j) mod fsize) \<noteq> uw ! (Suc iuw + j)) [0..<n]))"
    using Suc.prems lt by (intro Suc.IH) simp_all
  also have "\<dots> = Some (diff + length (filter (\<lambda>j. ring ! ((ibit + j) mod fsize) \<noteq> uw ! (iuw + j)) [0..<Suc n]))"
    unfolding up shift using Suc.prems(1)
    by (simp add: filter_map comp_def del: upt_Suc)
  finally show ?case .
qed

text \<open>The number of UW positions that differ, for a cursor \<open>bp\<close> in a ring of 96 bits.\<close>

lemma match_uw_count:
  assumes "ftype d = FREEDV_VHF_FRAME_A" "frame_size d = 96" "length (bits d) = 96" "bitptr d < 96"
  shows "fvhff_match_uw d tol =
     Some (length (filter (\<lambda>j. bits d ! ((bitptr d + 40 + j) mod 96) \<noteq> A_uw ! j) [0..<16]) \<le> tol)"
proof -
  define s where "s = (if bitptr d + 40 \<ge> 96 then bitptr d + 40 - 96 else bitptr d + 40)"
  have s: "s < 96" using assms(4) by (auto simp: s_def)
  have m: "\<And>j. (s + j) mod 96 = (bitptr d + 40 + j) mod 96"
    by (auto simp: s_def le_mod_geq)
  have "match_uw_loop (bits d) A_uw 96 16 0 s 0 =
      Some (0 + length (filter (\<lambda>j. bits d ! ((s + j) mod 96) \<noteq> A_uw ! (0 + j)) [0..<16]))"
    using s assms(3) by (intro match_uw_loop_count) simp_all
  then have "match_uw_loop (bits d) A_uw 96 16 0 s 0 =
      Some (length (filter (\<lambda>j. bits d ! ((bitptr d + 40 + j) mod 96) \<noteq> A_uw ! j) [0..<16]))"
    unfolding m by simp
  moreover have "fvhff_match_uw d tol =
      match_uw_loop (bits d) A_uw 96 16 0 s 0 \<bind> (\<lambda>diff. Some (diff \<le> tol))"
    using assms(1,2) by (simp add: fvhff_match_uw_def Let_def s_def)
  ultimately show ?thesis by simp
qed

section \<open>The packing loop\<close>

lemma bit_or_pushed:
  fixes old x :: byte
  assumes "s \<le> 7"
  shows "bit (old OR push_bit s (x AND 1)) m \<longleftrightarrow> bit old m \<or> (m = s \<and> bit x 0)"
proof -
  have "bit (push_bit s (x AND 1)) m \<longleftrightarrow> m = s \<and> bit x 0"
  proof (cases "m = s")
    case True
    with assms show ?thesis
      by (simp add: bit_push_bit_iff bit_and_iff bit_1_iff del: push_bit_and)
  next
    case False
    then show ?thesis
      by (auto simp add: bit_push_bit_iff bit_and_iff bit_1_iff simp del: push_bit_and)
  qed
  then show ?thesis by (simp only: bit_or_iff)
qed

lemma field_index:
  fixes m b p :: nat
  assumes "m < 8"
  shows "8 * b + 7 - m = p \<longleftrightarrow> b = p div 8 \<and> m = 7 - p mod 8"
proof
  assume "8 * b + 7 - m = p"
  with assms have p: "p = 8 * b + (7 - m)" by simp
  have "p div 8 = b" unfolding p by simp
  moreover have "p mod 8 = 7 - m" unfolding p by simp
  ultimately show "b = p div 8 \<and> m = 7 - p mod 8" using assms by simp
next
  assume a: "b = p div 8 \<and> m = 7 - p mod 8"
  have "p mod 8 < 8" by simp
  moreover have "8 * (p div 8) + p mod 8 = p" by simp
  ultimately show "8 * b + 7 - m = p" using a by linarith
qed

lemma pack_bits_bit:
  assumes "iframe < fsize" "fsize \<le> length ring" "ibit + n \<le> 8 * length out"
  shows "\<exists>out'. pack_bits ring fsize n iframe ibit out = Some out' \<and> length out' = length out \<and>
     (\<forall>b m. b < length out \<longrightarrow> (bit (out' ! b) m \<longleftrightarrow> bit (out ! b) m \<or>
         (m < 8 \<and> ibit \<le> 8 * b + 7 - m \<and> 8 * b + 7 - m < ibit + n \<and>
          bit (ring ! ((iframe + (8 * b + 7 - m - ibit)) mod fsize)) 0)))"
  using assms
proof (induction n arbitrary: iframe ibit out)
  case 0
  then show ?case by auto
next
  case (Suc n)
  define b0 where "b0 = ibit div 8"
  define m0 where "m0 = 7 - ibit mod 8"
  define iframe' where "iframe' = (if iframe + 1 \<ge> fsize then 0 else iframe + 1)"
  define v where "v = out ! b0 OR push_bit m0 (ring ! iframe AND 1)"
  define out1 where "out1 = out[b0 := v]"
  have b0: "b0 < length out" using Suc.prems(3) by (simp add: b0_def)
  have m0: "m0 \<le> 7" by (simp add: m0_def)
  have bv: "bit v m \<longleftrightarrow> bit (out ! b0) m \<or> (m = m0 \<and> bit (ring ! iframe) 0)" for m
    unfolding v_def by (rule bit_or_pushed [OF m0])
  have w: "iframe' = Suc iframe mod fsize"
    using Suc.prems(1) by (auto simp: iframe'_def le_Suc_eq)
  have lt: "iframe' < fsize" using Suc.prems(1) by (auto simp: iframe'_def)
  have step: "pack_bits ring fsize (Suc n) iframe ibit out = pack_bits ring fsize n iframe' (Suc ibit) out1"
    using Suc.prems(1,2) b0
    by (simp add: Let_def b0_def m0_def iframe'_def out1_def v_def)
  have len: "length out1 = length out" by (simp add: out1_def)
  have "Suc ibit + n \<le> 8 * length out1" using Suc.prems(3) by (simp add: len)
  from Suc.IH [OF lt Suc.prems(2) this] obtain out' where
    o: "pack_bits ring fsize n iframe' (Suc ibit) out1 = Some out'" "length out' = length out1"
       "\<forall>b m. b < length out1 \<longrightarrow> (bit (out' ! b) m \<longleftrightarrow> bit (out1 ! b) m \<or>
         (m < 8 \<and> Suc ibit \<le> 8 * b + 7 - m \<and> 8 * b + 7 - m < Suc ibit + n \<and>
          bit (ring ! ((iframe' + (8 * b + 7 - m - Suc ibit)) mod fsize)) 0))"
    by (elim exE conjE) (rule that)
  have main: "bit (out' ! b) m \<longleftrightarrow> bit (out ! b) m \<or>
         (m < 8 \<and> ibit \<le> 8 * b + 7 - m \<and> 8 * b + 7 - m < ibit + Suc n \<and>
          bit (ring ! ((iframe + (8 * b + 7 - m - ibit)) mod fsize)) 0)"
    if b: "b < length out" for b m
  proof -
    define q where "q = 8 * b + 7 - m"
    have ih: "bit (out' ! b) m \<longleftrightarrow> bit (out1 ! b) m \<or>
         (m < 8 \<and> Suc ibit \<le> q \<and> q < Suc ibit + n \<and>
          bit (ring ! ((iframe' + (q - Suc ibit)) mod fsize)) 0)"
      unfolding q_def using b len by (intro o(3) [rule_format]) simp
    have o1: "bit (out1 ! b) m \<longleftrightarrow> bit (out ! b) m \<or> (b = b0 \<and> m = m0 \<and> bit (ring ! iframe) 0)"
    proof (cases "b = b0")
      case True
      then have "out1 ! b = v" using b0 by (simp add: out1_def)
      with True bv [of m] show ?thesis by simp
    next
      case False
      then have "out1 ! b = out ! b" by (simp add: out1_def)
      with False show ?thesis by simp
    qed
    have fi: "m < 8 \<Longrightarrow> q = ibit \<longleftrightarrow> b = b0 \<and> m = m0"
      unfolding q_def b0_def m0_def by (rule field_index)
    show ?thesis
      unfolding q_def [symmetric]
    proof (cases "m < 8 \<and> q = ibit")
      case True
      with fi have "b = b0" "m = m0" by simp_all
      have "iframe mod fsize = iframe" using Suc.prems(1) by simp
      with True ih o1 \<open>b = b0\<close> \<open>m = m0\<close> show "bit (out' ! b) m \<longleftrightarrow> bit (out ! b) m \<or>
         (m < 8 \<and> ibit \<le> q \<and> q < ibit + Suc n \<and> bit (ring ! ((iframe + (q - ibit)) mod fsize)) 0)"
        by simp
    next
      case False
      have ne: "\<not> (b = b0 \<and> m = m0)"
      proof
        assume bm: "b = b0 \<and> m = m0"
        with m0 have "m < 8" by simp
        with fi bm False show False by simp
      qed
      have idx: "(iframe' + (q - Suc ibit)) mod fsize = (iframe + (q - ibit)) mod fsize"
        if "Suc ibit \<le> q"
      proof -
        have "(iframe' + (q - Suc ibit)) mod fsize = (Suc iframe + (q - Suc ibit)) mod fsize"
          unfolding w by (simp add: mod_add_left_eq)
        also have "Suc iframe + (q - Suc ibit) = iframe + (q - ibit)" using that by simp
        finally show ?thesis .
      qed
      have o1': "bit (out1 ! b) m \<longleftrightarrow> bit (out ! b) m" using o1 ne by blast
      show "bit (out' ! b) m \<longleftrightarrow> bit (out ! b) m \<or>
         (m < 8 \<and> ibit \<le> q \<and> q < ibit + Suc n \<and> bit (ring ! ((iframe + (q - ibit)) mod fsize)) 0)"
      proof (cases "m < 8 \<and> Suc ibit \<le> q")
        case True
        with idx have "(iframe' + (q - Suc ibit)) mod fsize = (iframe + (q - ibit)) mod fsize" by simp
        with ih o1' True show ?thesis by simp
      next
        case F2: False
        with False have "\<not> (m < 8 \<and> ibit \<le> q)" by auto
        with ih o1' F2 show ?thesis by blast
      qed
    qed
  qed
  have r: "pack_bits ring fsize (Suc n) iframe ibit out = Some out'" using step o(1) by simp
  have l: "length out' = length out" using o(2) len by simp
  show ?case
  proof (intro exI conjI allI impI)
    show "pack_bits ring fsize (Suc n) iframe ibit out = Some out'" by (rule r)
    show "length out' = length out" by (rule l)
    fix b m assume "b < length out"
    then show "bit (out' ! b) m \<longleftrightarrow> bit (out ! b) m \<or>
         (m < 8 \<and> ibit \<le> 8 * b + 7 - m \<and> 8 * b + 7 - m < ibit + Suc n \<and>
          bit (ring ! ((iframe + (8 * b + 7 - m - ibit)) mod fsize)) 0)"
      by (rule main)
  qed
qed

text \<open>What a successful run of the loop can have set, whatever the ring holds.\<close>

lemma pack_bits_upper:
  assumes "pack_bits ring fsize n iframe ibit out = Some out'"
  shows "length out' = length out \<and>
     (\<forall>b m. bit (out' ! b) m \<longrightarrow> bit (out ! b) m \<or> (m < 8 \<and> ibit \<le> 8 * b + 7 - m \<and> 8 * b + 7 - m < ibit + n))"
  using assms
proof (induction n arbitrary: iframe ibit out)
  case 0
  then show ?case by simp
next
  case (Suc n)
  define b0 where "b0 = ibit div 8"
  define m0 where "m0 = 7 - ibit mod 8"
  from Suc.prems obtain x iframe' where
    b0: "b0 < length out"
    and rest: "pack_bits ring fsize n iframe' (Suc ibit) (out[b0 := out ! b0 OR push_bit m0 (x AND 1)]) = Some out'"
    by (auto simp: bind_eq_Some_conv rd_def wr_def Let_def b0_def m0_def split: if_splits)
  define v where "v = out ! b0 OR push_bit m0 (x AND 1)"
  have m0: "m0 \<le> 7" by (simp add: m0_def)
  have bv: "bit v m \<longleftrightarrow> bit (out ! b0) m \<or> (m = m0 \<and> bit x 0)" for m
    unfolding v_def by (rule bit_or_pushed [OF m0])
  from Suc.IH [OF rest [folded v_def]] have
    l: "length out' = length out"
    and ih: "\<forall>b m. bit (out' ! b) m \<longrightarrow> bit (out[b0 := v] ! b) m \<or>
        (m < 8 \<and> Suc ibit \<le> 8 * b + 7 - m \<and> 8 * b + 7 - m < Suc ibit + n)"
    by simp_all
  have "bit (out ! b) m \<or> (m < 8 \<and> ibit \<le> 8 * b + 7 - m \<and> 8 * b + 7 - m < ibit + Suc n)"
    if "bit (out' ! b) m" for b m
  proof -
    from ih that have c: "bit (out[b0 := v] ! b) m \<or>
        (m < 8 \<and> Suc ibit \<le> 8 * b + 7 - m \<and> 8 * b + 7 - m < Suc ibit + n)"
      by blast
    show ?thesis
    proof (cases "b = b0 \<and> m = m0")
      case True
      with m0 have "m < 8" by simp
      moreover from this True have "8 * b + 7 - m = ibit"
        by (simp add: field_index b0_def m0_def)
      ultimately show ?thesis by simp
    next
      case False
      have "bit (out[b0 := v] ! b) m \<Longrightarrow> bit (out ! b) m"
        using False bv [of m] b0 by (cases "b = b0") auto
      with c show ?thesis by auto
    qed
  qed
  with l show ?case by blast
qed

text \<open>
  A field of two ranges: the output is cleared, then \<open>n1\<close> bits are packed from the ring
  position \<open>s1\<close> on and \<open>n2\<close> bits from \<open>s2\<close> on.
\<close>

lemma two_range_pack:
  assumes "s1 < fs" "s2 < fs" "fs \<le> length ring" "n1 + n2 \<le> 8 * k" "k \<le> length buf"
  shows "\<exists>out. (memset0 buf k \<bind> (\<lambda>c. pack_bits ring fs n1 s1 0 c \<bind> pack_bits ring fs n2 s2 n1)) = Some out
      \<and> length out = length buf
      \<and> (\<forall>b m. b < k \<longrightarrow> (bit (out ! b) m \<longleftrightarrow>
            m < 8 \<and> (8 * b + 7 - m < n1 \<and> bit (ring ! ((s1 + (8 * b + 7 - m)) mod fs)) 0
                   \<or> n1 \<le> 8 * b + 7 - m \<and> 8 * b + 7 - m < n1 + n2
                     \<and> bit (ring ! ((s2 + (8 * b + 7 - m - n1)) mod fs)) 0)))"
proof -
  define c0 where "c0 = replicate k (0::byte) @ drop k buf"
  have m: "memset0 buf k = Some c0" using assms(5) by (simp add: memset0_def c0_def)
  have l0: "length c0 = length buf" using assms(5) by (simp add: c0_def)
  have z: "c0 ! b = 0" if "b < k" for b using that by (simp add: c0_def nth_append)
  have "0 + n1 \<le> 8 * length c0" using assms(4,5) l0 by simp
  from pack_bits_bit [OF assms(1,3) this] obtain c1 where
    c1: "pack_bits ring fs n1 s1 0 c0 = Some c1" "length c1 = length c0"
      "\<forall>b m. b < length c0 \<longrightarrow> (bit (c1 ! b) m \<longleftrightarrow> bit (c0 ! b) m \<or>
         (m < 8 \<and> 0 \<le> 8 * b + 7 - m \<and> 8 * b + 7 - m < 0 + n1 \<and>
          bit (ring ! ((s1 + (8 * b + 7 - m - 0)) mod fs)) 0))"
    by (elim exE conjE) (rule that)
  have "n1 + n2 \<le> 8 * length c1" using assms(4,5) l0 c1(2) by simp
  from pack_bits_bit [OF assms(2,3) this] obtain c2 where
    c2: "pack_bits ring fs n2 s2 n1 c1 = Some c2" "length c2 = length c1"
      "\<forall>b m. b < length c1 \<longrightarrow> (bit (c2 ! b) m \<longleftrightarrow> bit (c1 ! b) m \<or>
         (m < 8 \<and> n1 \<le> 8 * b + 7 - m \<and> 8 * b + 7 - m < n1 + n2 \<and>
          bit (ring ! ((s2 + (8 * b + 7 - m - n1)) mod fs)) 0))"
    by (elim exE conjE) (rule that)
  have r: "(memset0 buf k \<bind> (\<lambda>c. pack_bits ring fs n1 s1 0 c \<bind> pack_bits ring fs n2 s2 n1)) = Some c2"
    by (simp add: m c1(1) c2(1))
  have l: "length c2 = length buf" by (simp add: c2(2) c1(2) l0)
  have main: "bit (c2 ! b) m \<longleftrightarrow>
            m < 8 \<and> (8 * b + 7 - m < n1 \<and> bit (ring ! ((s1 + (8 * b + 7 - m)) mod fs)) 0
                   \<or> n1 \<le> 8 * b + 7 - m \<and> 8 * b + 7 - m < n1 + n2
                     \<and> bit (ring ! ((s2 + (8 * b + 7 - m - n1)) mod fs)) 0)"
    if "b < k" for b m
  proof -
    from that assms(5) have bl: "b < length c0" "b < length c1" by (simp_all add: l0 c1(2))
    have "bit (c0 ! b) m = False" using z [OF that] by simp
    with c1(3) [rule_format, OF bl(1), of m] c2(3) [rule_format, OF bl(2), of m]
    show ?thesis by auto
  qed
  show ?thesis
  proof (intro exI conjI allI impI)
    show "(memset0 buf k \<bind> (\<lambda>c. pack_bits ring fs n1 s1 0 c \<bind> pack_bits ring fs n2 s2 n1)) = Some c2"
      by (rule r)
    show "length c2 = length buf" by (rule l)
    fix b m assume "b < k"
    then show "bit (c2 ! b) m \<longleftrightarrow>
            m < 8 \<and> (8 * b + 7 - m < n1 \<and> bit (ring ! ((s1 + (8 * b + 7 - m)) mod fs)) 0
                   \<or> n1 \<le> 8 * b + 7 - m \<and> 8 * b + 7 - m < n1 + n2
                     \<and> bit (ring ! ((s2 + (8 * b + 7 - m - n1)) mod fs)) 0)"
      by (rule main)
  qed
qed

section \<open>Field extraction\<close>

lemma field_start_mod:
  assumes "frame_size d = 96" "bitptr d < 96" "off < 96"
  shows "field_start d off = (bitptr d + off) mod 96"
  using assms by (auto simp: field_start_def Let_def le_mod_geq)

lemma field_start_shift:
  assumes "frame_size d = 96" "bitptr d < 96" "off < 96"
  shows "(field_start d off + t) mod 96 = (bitptr d + off + t) mod 96"
  unfolding field_start_mod [OF assms] by (simp add: mod_add_left_eq)

lemma extract_codec2_bits:
  assumes "frame_size d = 96" "length (bits d) = 96" "bitptr d < 96" "7 \<le> length c"
  shows "\<exists>c'. extract_codec2 d c = Some c' \<and> length c' = length c \<and>
     (\<forall>b m. b < 7 \<longrightarrow> (bit (c' ! b) m \<longleftrightarrow>
        m < 8 \<and> (8 * b + 7 - m < 24 \<and> bit (bits d ! ((bitptr d + 16 + (8 * b + 7 - m)) mod 96)) 0
               \<or> 24 \<le> 8 * b + 7 - m \<and> 8 * b + 7 - m < 52
                 \<and> bit (bits d ! ((bitptr d + 56 + (8 * b + 7 - m - 24)) mod 96)) 0)))"
proof -
  have s: "field_start d 16 < 96" "field_start d 56 < 96"
    using assms(1,3) by (simp_all add: field_start_mod)
  have "\<exists>out. (memset0 c 7 \<bind> (\<lambda>c. pack_bits (bits d) 96 24 (field_start d 16) 0 c
            \<bind> pack_bits (bits d) 96 28 (field_start d 56) 24)) = Some out
      \<and> length out = length c
      \<and> (\<forall>b m. b < 7 \<longrightarrow> (bit (out ! b) m \<longleftrightarrow>
            m < 8 \<and> (8 * b + 7 - m < 24 \<and> bit (bits d ! ((field_start d 16 + (8 * b + 7 - m)) mod 96)) 0
                   \<or> 24 \<le> 8 * b + 7 - m \<and> 8 * b + 7 - m < 24 + 28
                     \<and> bit (bits d ! ((field_start d 56 + (8 * b + 7 - m - 24)) mod 96)) 0)))"
    using s assms(2,4) by (intro two_range_pack) simp_all
  then show ?thesis
    using assms(1,3) by (simp add: extract_codec2_def field_start_shift)
qed

lemma extract_proto_bits:
  assumes "frame_size d = 96" "length (bits d) = 96" "bitptr d < 96" "3 \<le> length p"
  shows "\<exists>p'. extract_proto d p = Some p' \<and> length p' = length p \<and>
     (\<forall>b m. b < 3 \<longrightarrow> (bit (p' ! b) m \<longleftrightarrow>
        m < 8 \<and> (8 * b + 7 - m < 12 \<and> bit (bits d ! ((bitptr d + 4 + (8 * b + 7 - m)) mod 96)) 0
               \<or> 12 \<le> 8 * b + 7 - m \<and> 8 * b + 7 - m < 20
                 \<and> bit (bits d ! ((bitptr d + 84 + (8 * b + 7 - m - 12)) mod 96)) 0)))"
proof -
  have s: "field_start d 4 < 96" "field_start d 84 < 96"
    using assms(1,3) by (simp_all add: field_start_mod)
  have "\<exists>out. (memset0 p 3 \<bind> (\<lambda>c. pack_bits (bits d) 96 12 (field_start d 4) 0 c
            \<bind> pack_bits (bits d) 96 8 (field_start d 84) 12)) = Some out
      \<and> length out = length p
      \<and> (\<forall>b m. b < 3 \<longrightarrow> (bit (out ! b) m \<longleftrightarrow>
            m < 8 \<and> (8 * b + 7 - m < 12 \<and> bit (bits d ! ((field_start d 4 + (8 * b + 7 - m)) mod 96)) 0
                   \<or> 12 \<le> 8 * b + 7 - m \<and> 8 * b + 7 - m < 12 + 8
                     \<and> bit (bits d ! ((field_start d 84 + (8 * b + 7 - m - 12)) mod 96)) 0)))"
    using s assms(2,4) by (intro two_range_pack) simp_all
  then show ?thesis
    using assms(1,3) by (simp add: extract_proto_def field_start_shift)
qed

text \<open>
  The side-channel block reads its second bit at \<open>iframe + 1\<close> without wrapping: with
  the cursor at 5 the first bit is at 95 and the second read is at 96, outside the ring.
\<close>

lemma extract_vc_eq:
  assumes "frame_size d = 96" "length (bits d) = 96" "bitptr d < 96" "2 \<le> length vc"
  shows "extract_vc d vc =
     (if bitptr d = 5 then None
      else Some (vc[0 := bits d ! ((bitptr d + 90) mod 96), 1 := bits d ! ((bitptr d + 90) mod 96 + 1)]))"
proof -
  have s: "field_start d 90 = (bitptr d + 90) mod 96"
    using assms(1,3) by (simp add: field_start_mod)
  have lt: "(bitptr d + 90) mod 96 < 96" by simp
  have five: "(bitptr d + 90) mod 96 + 1 < 96 \<longleftrightarrow> bitptr d \<noteq> 5"
    using assms(3) by (auto simp: le_mod_geq mod_if)
  have l: "0 < length vc" "1 < length vc" using assms(4) by auto
  show ?thesis
  proof (cases "bitptr d = 5")
    case True
    with five have "length (bits d) \<le> (bitptr d + 90) mod 96 + 1" using assms(2) by simp
    then have "rd (bits d) ((bitptr d + 90) mod 96 + 1) = None" by (rule rd_None)
    with True lt l assms(2) show ?thesis
      unfolding extract_vc_def s Let_def by (simp del: rd_None)
  next
    case False
    with five have "(bitptr d + 90) mod 96 + 1 < length (bits d)" using assms(2) by simp
    then have "rd (bits d) ((bitptr d + 90) mod 96 + 1) = Some (bits d ! ((bitptr d + 90) mod 96 + 1))"
      by (rule rd_Some)
    with False lt l assms(2) show ?thesis
      unfolding extract_vc_def s Let_def by simp
  qed
qed

section \<open>One bit of the deframer\<close>

lemma fed_fields [simp]:
  "ftype (fed d f k) = ftype d"
  "frame_size (fed d f k) = frame_size d"
  "bits (fed d f k) = take k f @ drop k (bits d)"
  "bitptr (fed d f k) = (if k \<ge> frame_size d then 0 else k)"
  by (simp_all add: fed_def)

lemma fed_0: "bitptr d = 0 \<Longrightarrow> 0 < frame_size d \<Longrightarrow> fed d f 0 = d"
  by (simp add: fed_def)

lemma ring_store:
  assumes "k < length f" "k < length ring"
  shows "(take k f @ drop k ring)[k := f ! k] = take (Suc k) f @ drop (Suc k) ring"
proof -
  have a: "(take k f @ drop k ring)[k := f ! k] = take k f @ (drop k ring)[0 := f ! k]"
    using assms(1) by (simp add: list_update_append)
  have b: "drop k ring = ring ! k # drop (Suc k) ring"
    using assms(2) by (simp add: Cons_nth_drop_Suc)
  have c: "take (Suc k) f = take k f @ [f ! k]"
    using assms(1) by (simp add: take_Suc_conv_app_nth)
  show ?thesis unfolding a c by (subst b) simp
qed

lemma put_bit_fed:
  assumes "frame_size d = 96" "length (bits d) = 96" "k < 96" "k < length f"
  shows "put_bit (fed d f k) (f ! k) = Some (fed d f (Suc k))"
proof -
  have "k < length (take k f @ drop k (bits d))" using assms by simp
  then have "wr (take k f @ drop k (bits d)) k (f ! k) = Some (take (Suc k) f @ drop (Suc k) (bits d))"
    using assms by (simp add: ring_store)
  then show ?thesis
    using assms(1,3) by (simp add: put_bit_def fed_def Let_def)
qed

lemma body_nosync:
  assumes "lv_state lv \<noteq> ST_SYNC" "put_bit (lv_def lv) b = Some d'"
  shows "deframe_body t1 t2 mt b lv =
     fvhff_match_uw d' t1 \<bind> (\<lambda>m.
       if m then fvhff_extract_frame d' (lv_out lv) \<bind> (\<lambda>out.
              Some (lv\<lparr> lv_def := d', lv_state := ST_SYNC, lv_last_uw := 0,
                       lv_miss_cnt := 0, lv_extracted_frame := 1,
                       lv_out := out, lv_events := lv_events lv + 1 \<rparr>))
       else Some (lv\<lparr> lv_def := d' \<rparr>))"
  using assms by (simp add: deframe_body_def)

lemma body_sync_wait:
  assumes "lv_state lv = ST_SYNC" "put_bit (lv_def lv) b = Some d'"
    "lv_last_uw lv + 1 \<noteq> frame_size d'"
  shows "deframe_body t1 t2 mt b lv = Some (lv\<lparr> lv_def := d', lv_last_uw := lv_last_uw lv + 1 \<rparr>)"
  using assms by (simp add: deframe_body_def Let_def)

lemma body_sync_due:
  assumes "lv_state lv = ST_SYNC" "put_bit (lv_def lv) b = Some d'"
    "lv_last_uw lv + 1 = frame_size d'"
  shows "deframe_body t1 t2 mt b lv =
     fvhff_match_uw d' t2 \<bind> (\<lambda>m.
       fvhff_extract_frame d' (lv_out lv) \<bind> (\<lambda>out.
         Some (lv\<lparr> lv_def := d',
                  lv_state := (if (if \<not> m then lv_miss_cnt lv + 1 else 0) > mt then ST_NOSYNC else lv_state lv),
                  lv_last_uw := 0,
                  lv_miss_cnt := (if \<not> m then lv_miss_cnt lv + 1 else 0),
                  lv_extracted_frame := 1,
                  lv_out := out, lv_events := lv_events lv + 1 \<rparr>)))"
  using assms by (simp add: deframe_body_def Let_def)

section \<open>Runs of the bit loop\<close>

lemma deframe_loop_append:
  "deframe_loop t1 t2 mt f (n + m) i lv =
     deframe_loop t1 t2 mt f n i lv \<bind> deframe_loop t1 t2 mt f m (i + n)"
proof (induction n arbitrary: i lv)
  case 0
  then show ?case by simp
next
  case (Suc n)
  show ?case
  proof (cases "rd f i")
    case None
    then show ?thesis by simp
  next
    case (Some b)
    show ?thesis
    proof (cases "deframe_body t1 t2 mt b lv")
      case None
      with Some show ?thesis by simp
    next
      case (Some lv')
      with \<open>rd f i = Some b\<close> Suc.IH [of "Suc i" lv'] show ?thesis by simp
    qed
  qed
qed

text \<open>Bits that arrive while the deframer is unsynchronized and the UW test fails.\<close>

lemma nosync_quiet:
  assumes d: "ftype d = FREEDV_VHF_FRAME_A" "frame_size d = 96" "length (bits d) = 96"
    and "lv_def lv = fed d f i" "lv_state lv \<noteq> ST_SYNC"
    and "i + n \<le> 96" "i + n \<le> length f"
    and "\<And>k. i < k \<Longrightarrow> k \<le> i + n \<Longrightarrow> fvhff_match_uw (fed d f k) 2 = Some False"
  shows "deframe_loop 2 1 2 f n i lv = Some (lv\<lparr> lv_def := fed d f (i + n) \<rparr>)"
  using assms(4-)
proof (induction n arbitrary: i lv)
  case 0
  then show ?case by simp
next
  case (Suc n)
  have i: "i < 96" "i < length f" using Suc.prems(3,4) by simp_all
  have p: "put_bit (lv_def lv) (f ! i) = Some (fed d f (Suc i))"
    unfolding Suc.prems(1) using d(2,3) i by (rule put_bit_fed)
  have m: "fvhff_match_uw (fed d f (Suc i)) 2 = Some False"
    by (rule Suc.prems(5)) simp_all
  have b: "deframe_body 2 1 2 (f ! i) lv = Some (lv\<lparr> lv_def := fed d f (Suc i) \<rparr>)"
    by (simp add: body_nosync [OF Suc.prems(2) p] m)
  have "deframe_loop 2 1 2 f n (Suc i) (lv\<lparr> lv_def := fed d f (Suc i) \<rparr>)
      = Some (lv\<lparr> lv_def := fed d f (Suc i) \<rparr>\<lparr> lv_def := fed d f (Suc i + n) \<rparr>)"
    using Suc.prems(2,3,4,5) by (intro Suc.IH) simp_all
  with b i show ?case by simp
qed

text \<open>Bits that arrive while the deframer is synchronized and the next UW is not yet due.\<close>

lemma sync_quiet:
  assumes d: "frame_size d = 96" "length (bits d) = 96"
    and "lv_def lv = fed d f i" "lv_state lv = ST_SYNC"
    and "i + n \<le> 96" "i + n \<le> length f" "lv_last_uw lv + n < 96"
  shows "deframe_loop t1 t2 mt f n i lv =
     Some (lv\<lparr> lv_def := fed d f (i + n), lv_last_uw := lv_last_uw lv + n \<rparr>)"
  using assms(3-)
proof (induction n arbitrary: i lv)
  case 0
  then show ?case by simp
next
  case (Suc n)
  have i: "i < 96" "i < length f" using Suc.prems(3,4) by simp_all
  have p: "put_bit (lv_def lv) (f ! i) = Some (fed d f (Suc i))"
    unfolding Suc.prems(1) using d i by (rule put_bit_fed)
  have "lv_last_uw lv + 1 \<noteq> frame_size (fed d f (Suc i))"
    using Suc.prems(5) d(1) by simp
  from body_sync_wait [OF Suc.prems(2) p this]
  have b: "deframe_body t1 t2 mt (f ! i) lv =
      Some (lv\<lparr> lv_def := fed d f (Suc i), lv_last_uw := lv_last_uw lv + 1 \<rparr>)" .
  have "deframe_loop t1 t2 mt f n (Suc i) (lv\<lparr> lv_def := fed d f (Suc i), lv_last_uw := lv_last_uw lv + 1 \<rparr>)
      = Some (lv\<lparr> lv_def := fed d f (Suc i), lv_last_uw := lv_last_uw lv + 1 \<rparr>
               \<lparr> lv_def := fed d f (Suc i + n),
                 lv_last_uw := lv_last_uw (lv\<lparr> lv_def := fed d f (Suc i), lv_last_uw := lv_last_uw lv + 1 \<rparr>) + n \<rparr>)"
    using Suc.prems(2,3,4,5) by (intro Suc.IH) simp_all
  with b i show ?case by simp
qed

section \<open>A call whose input is aligned with the frames\<close>

lemma deframe_loop_1:
  "deframe_loop t1 t2 mt f (Suc 0) i lv = rd f i \<bind> (\<lambda>b. deframe_body t1 t2 mt b lv)"
proof (cases "rd f i")
  case None
  then show ?thesis by simp
next
  case (Some b)
  then show ?thesis by (cases "deframe_body t1 t2 mt b lv") simp_all
qed

text \<open>
  With all 96 bits of \<open>f\<close> stored and the cursor back at 0, the UW test counts the
  positions \<open>j\<close> at which bit \<open>40 + j\<close> of \<open>f\<close> differs from the UW.
\<close>

lemma match_aligned:
  assumes "ftype d = FREEDV_VHF_FRAME_A" "frame_size d = 96" "length (bits d) = 96" "96 \<le> length f"
  shows "fvhff_match_uw (fed d f 96) tol =
     Some (length (filter (\<lambda>j. f ! (40 + j) \<noteq> A_uw ! j) [0..<16]) \<le> tol)"
proof -
  have "fvhff_match_uw (fed d f 96) tol =
     Some (length (filter (\<lambda>j. bits (fed d f 96) ! ((bitptr (fed d f 96) + 40 + j) mod 96) \<noteq> A_uw ! j) [0..<16]) \<le> tol)"
    using assms by (intro match_uw_count) simp_all
  moreover have "filter (\<lambda>j. bits (fed d f 96) ! ((bitptr (fed d f 96) + 40 + j) mod 96) \<noteq> A_uw ! j) [0..<16]
      = filter (\<lambda>j. f ! (40 + j) \<noteq> A_uw ! j) [0..<16]"
    using assms by (intro filter_cong refl) simp
  ultimately show ?thesis by simp
qed

lemma match_fed_Some:
  assumes "ftype d = FREEDV_VHF_FRAME_A" "frame_size d = 96" "length (bits d) = 96"
    "k \<le> 96" "k \<le> length f"
  shows "\<exists>m. fvhff_match_uw (fed d f k) tol = Some m"
proof -
  have "bitptr (fed d f k) < 96" using assms(2,4) by simp
  moreover have "length (bits (fed d f k)) = 96" using assms(3,4,5) by simp
  ultimately show ?thesis
    using assms(1,2) match_uw_count [of "fed d f k" tol] by simp
qed

lemma sync_call:
  assumes d: "frame_size d = 96" "length (bits d) = 96" "bitptr d = 0"
    and s: "state d = ST_SYNC" "last_uw d = 0" and f: "96 \<le> length f"
  shows "deframe_run d out f =
     fvhff_match_uw (fed d f 96) 1 \<bind> (\<lambda>m.
       fvhff_extract_frame (fed d f 96) out \<bind> (\<lambda>out'.
         Some \<lparr> lv_def = fed d f 96,
                lv_state = (if (if \<not> m then miss_cnt d + 1 else 0) > 2 then ST_NOSYNC else ST_SYNC),
                lv_last_uw = 0,
                lv_miss_cnt = (if \<not> m then miss_cnt d + 1 else 0),
                lv_extracted_frame = 1, lv_out = out', lv_events = 1 \<rparr>))"
proof -
  define lv0 where "lv0 = \<lparr> lv_def = d, lv_state = state d, lv_last_uw = last_uw d,
     lv_miss_cnt = miss_cnt d, lv_extracted_frame = 0, lv_out = out, lv_events = 0 \<rparr>"
  define lv1 where "lv1 = lv0\<lparr> lv_def := fed d f (0 + 95), lv_last_uw := lv_last_uw lv0 + 95 \<rparr>"
  have "lv_def lv0 = fed d f 0" using d by (simp add: lv0_def fed_0)
  moreover have "lv_state lv0 = ST_SYNC" "lv_last_uw lv0 + 95 < 96" using s by (simp_all add: lv0_def)
  ultimately have q: "deframe_loop 2 1 2 f 95 0 lv0 = Some lv1"
    unfolding lv1_def using d(1,2) f by (intro sync_quiet) simp_all
  have p: "put_bit (lv_def lv1) (f ! 95) = Some (fed d f (Suc 95))"
    unfolding lv1_def using d(1,2) f by (simp add: put_bit_fed)
  have "lv_state lv1 = ST_SYNC" "lv_last_uw lv1 + 1 = frame_size (fed d f (Suc 95))"
    using s d(1) by (simp_all add: lv1_def lv0_def)
  from body_sync_due [OF this(1) p this(2), of 2 1 2]
  have b: "deframe_body 2 1 2 (f ! 95) lv1 =
     fvhff_match_uw (fed d f 96) 1 \<bind> (\<lambda>m.
       fvhff_extract_frame (fed d f 96) out \<bind> (\<lambda>out'.
         Some \<lparr> lv_def = fed d f 96,
                lv_state = (if (if \<not> m then miss_cnt d + 1 else 0) > 2 then ST_NOSYNC else ST_SYNC),
                lv_last_uw = 0,
                lv_miss_cnt = (if \<not> m then miss_cnt d + 1 else 0),
                lv_extracted_frame = 1, lv_out = out', lv_events = 1 \<rparr>))"
    using s by (simp add: lv1_def lv0_def cong del: if_weak_cong)
  have "deframe_run d out f = deframe_loop 2 1 2 f (95 + Suc 0) 0 lv0"
    using d(1) by (simp add: deframe_run_def lv0_def)
  also have "\<dots> = rd f 95 \<bind> (\<lambda>b. deframe_body 2 1 2 b lv1)"
    unfolding deframe_loop_append q by (simp del: deframe_loop.simps add: deframe_loop_1)
  also have "\<dots> = deframe_body 2 1 2 (f ! 95) lv1" using f by simp
  finally show ?thesis unfolding b .
qed

lemma nosync_call:
  assumes d: "ftype d = FREEDV_VHF_FRAME_A" "frame_size d = 96" "length (bits d) = 96" "bitptr d = 0"
    and s: "state d \<noteq> ST_SYNC" and f: "96 \<le> length f" and e: "\<not> early_sync d f"
  shows "deframe_run d out f =
     fvhff_match_uw (fed d f 96) 2 \<bind> (\<lambda>m.
       if m then fvhff_extract_frame (fed d f 96) out \<bind> (\<lambda>out'.
              Some \<lparr> lv_def = fed d f 96, lv_state = ST_SYNC, lv_last_uw = 0,
                     lv_miss_cnt = 0, lv_extracted_frame = 1, lv_out = out', lv_events = 1 \<rparr>)
       else Some \<lparr> lv_def = fed d f 96, lv_state = state d, lv_last_uw = last_uw d,
                     lv_miss_cnt = miss_cnt d, lv_extracted_frame = 0, lv_out = out, lv_events = 0 \<rparr>)"
proof -
  define lv0 where "lv0 = \<lparr> lv_def = d, lv_state = state d, lv_last_uw = last_uw d,
     lv_miss_cnt = miss_cnt d, lv_extracted_frame = 0, lv_out = out, lv_events = 0 \<rparr>"
  define lv1 where "lv1 = lv0\<lparr> lv_def := fed d f (0 + 95) \<rparr>"
  have quiet: "fvhff_match_uw (fed d f k) 2 = Some False" if "0 < k" "k \<le> 0 + 95" for k
  proof -
    from that f match_fed_Some [OF d(1,2,3), of k f 2] obtain m
      where m: "fvhff_match_uw (fed d f k) 2 = Some m" by auto
    from e that d(2) have "fvhff_match_uw (fed d f k) 2 \<noteq> Some True"
      by (auto simp: early_sync_def list_ex_iff)
    with m show ?thesis by simp
  qed
  have "lv_def lv0 = fed d f 0" using d by (simp add: lv0_def fed_0)
  moreover have "lv_state lv0 \<noteq> ST_SYNC" using s by (simp add: lv0_def)
  ultimately have q: "deframe_loop 2 1 2 f 95 0 lv0 = Some lv1"
    unfolding lv1_def using d(1,2,3) f quiet by (intro nosync_quiet) simp_all
  have p: "put_bit (lv_def lv1) (f ! 95) = Some (fed d f (Suc 95))"
    unfolding lv1_def using d(2,3) f by (simp add: put_bit_fed)
  have "lv_state lv1 \<noteq> ST_SYNC" using s by (simp add: lv1_def lv0_def)
  from body_nosync [OF this p, of 2 1 2]
  have b: "deframe_body 2 1 2 (f ! 95) lv1 =
     fvhff_match_uw (fed d f 96) 2 \<bind> (\<lambda>m.
       if m then fvhff_extract_frame (fed d f 96) out \<bind> (\<lambda>out'.
              Some \<lparr> lv_def = fed d f 96, lv_state = ST_SYNC, lv_last_uw = 0,
                     lv_miss_cnt = 0, lv_extracted_frame = 1, lv_out = out', lv_events = 1 \<rparr>)
       else Some \<lparr> lv_def = fed d f 96, lv_state = state d, lv_last_uw = last_uw d,
                     lv_miss_cnt = miss_cnt d, lv_extracted_frame = 0, lv_out = out, lv_events = 0 \<rparr>)"
    by (simp add: lv1_def lv0_def cong del: if_weak_cong)
  have "deframe_run d out f = deframe_loop 2 1 2 f (95 + Suc 0) 0 lv0"
    using d(2) by (simp add: deframe_run_def lv0_def)
  also have "\<dots> = rd f 95 \<bind> (\<lambda>b. deframe_body 2 1 2 b lv1)"
    unfolding deframe_loop_append q by (simp del: deframe_loop.simps add: deframe_loop_1)
  also have "\<dots> = deframe_body 2 1 2 (f ! 95) lv1" using f by simp
  finally show ?thesis unfolding b .
qed

section \<open>Unpacking and packing again\<close>

lemma unpack_bit0:
  assumes "Some v = UNPACK_BIT_MSBFIRST src q" "q div 8 < length src"
  shows "bit v 0 \<longleftrightarrow> bit (src ! (q div 8)) (7 - q mod 8)"
proof -
  from assms have "v = drop_bit (7 - q mod 8) (src ! (q div 8)) AND 1"
    by (simp add: UNPACK_Some)
  then show ?thesis by (simp add: bit_and_iff bit_drop_bit_eq bit_1_iff)
qed

lemma low_nibble_clear:
  fixes x :: byte
  assumes "x AND 15 = 0" "m < 4"
  shows "\<not> bit x m"
proof
  assume "bit x m"
  moreover have "bit (15 :: byte) m"
  proof -
    have e: "(15 :: byte) = mask 4" by (simp add: mask_eq_exp_minus_1)
    have "bit (mask 4 :: byte) m" using assms(2) by (simp add: bit_mask_iff)
    then show ?thesis unfolding e .
  qed
  ultimately have "bit (x AND 15) m" by (simp add: bit_and_iff)
  with assms(1) show False by simp
qed

lemma field_roundtrip:
  fixes out src :: "byte list"
  assumes bits: "\<And>b m. b < k \<Longrightarrow> bit (out ! b) m \<longleftrightarrow>
        m < 8 \<and> (8 * b + 7 - m < n1 \<and> bit (r1 (8 * b + 7 - m)) 0
               \<or> n1 \<le> 8 * b + 7 - m \<and> 8 * b + 7 - m < n \<and> bit (r2 (8 * b + 7 - m)) 0)"
    and src1: "\<And>q. q < n1 \<Longrightarrow> Some (r1 q) = UNPACK_BIT_MSBFIRST src q"
    and src2: "\<And>q. n1 \<le> q \<Longrightarrow> q < n \<Longrightarrow> Some (r2 q) = UNPACK_BIT_MSBFIRST src q"
    and len: "length src = k" "k \<le> length out"
    and pad: "\<And>b m. b < k \<Longrightarrow> m < 8 \<Longrightarrow> n \<le> 8 * b + 7 - m \<Longrightarrow> \<not> bit (src ! b) m"
  shows "take k out = src"
proof (rule nth_equalityI)
  show "length (take k out) = length src" using len by simp
next
  fix b assume "b < length (take k out)"
  with len have b: "b < k" by simp
  have "out ! b = src ! b"
  proof (rule bit_eqI)
    fix m
    show "bit (out ! b) m \<longleftrightarrow> bit (src ! b) m"
    proof (cases "m < 8")
      case False
      then have "\<not> bit (src ! b) m" by (auto dest: bit_imp_le_length)
      with False bits [OF b, of m] show ?thesis by simp
    next
      case True
      define q where "q = 8 * b + 7 - m"
      have qb: "q div 8 = b" "7 - q mod 8 = m"
        using field_index [OF True, of b q] True by (simp_all add: q_def)
      have bl: "q div 8 < length src" using qb b len by simp
      have o: "bit (out ! b) m \<longleftrightarrow> (q < n1 \<and> bit (r1 q) 0 \<or> n1 \<le> q \<and> q < n \<and> bit (r2 q) 0)"
        using bits [OF b, of m] True by (simp add: q_def)
      consider "q < n1" | "n1 \<le> q" "q < n" | "n1 \<le> q" "n \<le> q" by linarith
      then show ?thesis
      proof cases
        case 1
        from unpack_bit0 [OF src1 [OF 1] bl] have "bit (r1 q) 0 \<longleftrightarrow> bit (src ! b) m"
          by (simp add: qb)
        with o 1 show ?thesis by simp
      next
        case 2
        from unpack_bit0 [OF src2 [OF 2] bl] have "bit (r2 q) 0 \<longleftrightarrow> bit (src ! b) m"
          by (simp add: qb)
        with o 2 show ?thesis by simp
      next
        case 3
        with pad [OF b True] have "\<not> bit (src ! b) m" by (simp add: q_def)
        with o 3 show ?thesis by simp
      qed
    qed
  qed
  with b show "take k out ! b = src ! b" by simp
qed

section \<open>Extraction of an aligned frame\<close>

lemma A_blank_uw: "j < 16 \<Longrightarrow> A_blank ! (40 + j) = A_uw ! j"
proof -
  assume j: "j < 16"
  have "take 16 (drop 40 A_blank) = A_uw" by (simp add: A_blank_def A_uw_def)
  then have "A_uw ! j = take 16 (drop 40 A_blank) ! j" by simp
  also have "\<dots> = A_blank ! (40 + j)" using j by simp
  finally show ?thesis by simp
qed

text \<open>
  Extraction with the cursor at 0 from a ring whose payload and protocol positions hold
  the unpacked bits of \<open>c\<close> and \<open>p\<close>.
\<close>

lemma extract_fields:
  assumes R: "ftype R = FREEDV_VHF_FRAME_A" "frame_size R = 96" "length (bits R) = 96" "bitptr R = 0"
    and c: "length c = 7" "c ! 6 AND 15 = 0"
      "\<And>k. k < 24 \<Longrightarrow> Some (bits R ! (16 + k)) = UNPACK_BIT_MSBFIRST c k"
      "\<And>k. k < 28 \<Longrightarrow> Some (bits R ! (56 + k)) = UNPACK_BIT_MSBFIRST c (24 + k)"
    and p: "length p = 3" "p ! 2 AND 15 = 0"
      "\<And>k. k < 12 \<Longrightarrow> Some (bits R ! (4 + k)) = UNPACK_BIT_MSBFIRST p k"
      "\<And>k. k < 8 \<Longrightarrow> Some (bits R ! (84 + k)) = UNPACK_BIT_MSBFIRST p (12 + k)"
    and o: "7 \<le> length co" "3 \<le> length po" "2 \<le> length vo"
  shows "\<exists>c' p' v'.
      fvhff_extract_frame R \<lparr> codec2_out = co, proto_out = Some po, vc_out = Some vo \<rparr>
        = Some \<lparr> codec2_out = c', proto_out = Some p', vc_out = Some v' \<rparr>
      \<and> take 7 c' = c \<and> take 3 p' = p
      \<and> Some (v' ! 0) = UNPACK_BIT_MSBFIRST p 18 \<and> Some (v' ! 1) = UNPACK_BIT_MSBFIRST p 19
      \<and> length c' = length co \<and> length p' = length po \<and> length v' = length vo"
proof -
  have bp: "bitptr R < 96" using R(4) by simp
  from extract_codec2_bits [OF R(2,3) bp o(1)] obtain c' where
    c': "extract_codec2 R co = Some c'" "length c' = length co"
      "\<forall>b m. b < 7 \<longrightarrow> (bit (c' ! b) m \<longleftrightarrow>
        m < 8 \<and> (8 * b + 7 - m < 24 \<and> bit (bits R ! ((bitptr R + 16 + (8 * b + 7 - m)) mod 96)) 0
               \<or> 24 \<le> 8 * b + 7 - m \<and> 8 * b + 7 - m < 52
                 \<and> bit (bits R ! ((bitptr R + 56 + (8 * b + 7 - m - 24)) mod 96)) 0))"
    by (elim exE conjE) (rule that)
  have tc: "take 7 c' = c"
  proof (rule field_roundtrip [where ?n1.0 = 24 and n = 52
        and ?r1.0 = "\<lambda>q. bits R ! ((bitptr R + 16 + q) mod 96)"
        and ?r2.0 = "\<lambda>q. bits R ! ((bitptr R + 56 + (q - 24)) mod 96)"])
    fix b m :: nat assume "b < 7"
    then show "bit (c' ! b) m \<longleftrightarrow>
        m < 8 \<and> (8 * b + 7 - m < 24 \<and> bit (bits R ! ((bitptr R + 16 + (8 * b + 7 - m)) mod 96)) 0
               \<or> 24 \<le> 8 * b + 7 - m \<and> 8 * b + 7 - m < 52
                 \<and> bit (bits R ! ((bitptr R + 56 + (8 * b + 7 - m - 24)) mod 96)) 0)"
      using c'(3) by blast
  next
    fix q :: nat assume "q < 24"
    then show "Some (bits R ! ((bitptr R + 16 + q) mod 96)) = UNPACK_BIT_MSBFIRST c q"
      using c(3) [of q] R(4) by simp
  next
    fix q :: nat assume "24 \<le> q" "q < 52"
    then show "Some (bits R ! ((bitptr R + 56 + (q - 24)) mod 96)) = UNPACK_BIT_MSBFIRST c q"
      using c(4) [of "q - 24"] R(4) by simp
  next
    show "length c = 7" by (rule c(1))
    show "7 \<le> length c'" using c'(2) o(1) by simp
  next
    fix b m :: nat assume "b < 7" "m < 8" "52 \<le> 8 * b + 7 - m"
    then have "b = 6" "m < 4" by linarith+
    with low_nibble_clear [OF c(2)] show "\<not> bit (c ! b) m" by simp
  qed
  from extract_proto_bits [OF R(2,3) bp o(2)] obtain p' where
    p': "extract_proto R po = Some p'" "length p' = length po"
      "\<forall>b m. b < 3 \<longrightarrow> (bit (p' ! b) m \<longleftrightarrow>
        m < 8 \<and> (8 * b + 7 - m < 12 \<and> bit (bits R ! ((bitptr R + 4 + (8 * b + 7 - m)) mod 96)) 0
               \<or> 12 \<le> 8 * b + 7 - m \<and> 8 * b + 7 - m < 20
                 \<and> bit (bits R ! ((bitptr R + 84 + (8 * b + 7 - m - 12)) mod 96)) 0))"
    by (elim exE conjE) (rule that)
  have tp: "take 3 p' = p"
  proof (rule field_roundtrip [where ?n1.0 = 12 and n = 20
        and ?r1.0 = "\<lambda>q. bits R ! ((bitptr R + 4 + q) mod 96)"
        and ?r2.0 = "\<lambda>q. bits R ! ((bitptr R + 84 + (q - 12)) mod 96)"])
    fix b m :: nat assume "b < 3"
    then show "bit (p' ! b) m \<longleftrightarrow>
        m < 8 \<and> (8 * b + 7 - m < 12 \<and> bit (bits R ! ((bitptr R + 4 + (8 * b + 7 - m)) mod 96)) 0
               \<or> 12 \<le> 8 * b + 7 - m \<and> 8 * b + 7 - m < 20
                 \<and> bit (bits R ! ((bitptr R + 84 + (8 * b + 7 - m - 12)) mod 96)) 0)"
      using p'(3) by blast
  next
    fix q :: nat assume "q < 12"
    then show "Some (bits R ! ((bitptr R + 4 + q) mod 96)) = UNPACK_BIT_MSBFIRST p q"
      using p(3) [of q] R(4) by simp
  next
    fix q :: nat assume "12 \<le> q" "q < 20"
    then show "Some (bits R ! ((bitptr R + 84 + (q - 12)) mod 96)) = UNPACK_BIT_MSBFIRST p q"
      using p(4) [of "q - 12"] R(4) by simp
  next
    show "length p = 3" by (rule p(1))
    show "3 \<le> length p'" using p'(2) o(2) by simp
  next
    fix b m :: nat assume "b < 3" "m < 8" "20 \<le> 8 * b + 7 - m"
    then have "b = 2" "m < 4" by linarith+
    with low_nibble_clear [OF p(2)] show "\<not> bit (p ! b) m" by simp
  qed
  define v' where "v' = vo[0 := bits R ! 90, 1 := bits R ! 91]"
  have v: "extract_vc R vo = Some v'"
    using extract_vc_eq [OF R(2,3) bp o(3)] R(4) by (simp add: v'_def)
  have lv: "0 < length vo" "1 < length vo" using o(3) by auto
  have v0: "v' ! 0 = bits R ! (84 + 6)" "v' ! 1 = bits R ! (84 + 7)"
    using lv by (simp_all add: v'_def)
  have vu: "Some (v' ! 0) = UNPACK_BIT_MSBFIRST p 18" "Some (v' ! 1) = UNPACK_BIT_MSBFIRST p 19"
    unfolding v0 using p(4) [of 6] p(4) [of 7] by simp_all
  have "fvhff_extract_frame R \<lparr> codec2_out = co, proto_out = Some po, vc_out = Some vo \<rparr>
        = Some \<lparr> codec2_out = c', proto_out = Some p', vc_out = Some v' \<rparr>"
    using R(1) c'(1) p'(1) v by (simp add: fvhff_extract_frame_def)
  moreover have "length v' = length vo" by (simp add: v'_def)
  ultimately show ?thesis using tc tp vu c'(2) p'(2) by blast
qed

lemma fresh_deframer:
  assumes "fvhff_create_deframer t ok buf = Some d"
  shows "ftype d = FREEDV_VHF_FRAME_A" "frame_size d = 96" "length (bits d) = 96" "bitptr d = 0"
    "state d = ST_NOSYNC" "last_uw d = 0" "miss_cnt d = 0"
  using assms by (auto simp: fvhff_create_deframer_def split: if_splits option.splits)

lemma states_differ [simp]: "ST_NOSYNC \<noteq> ST_SYNC"
  by (simp add: ST_NOSYNC_def ST_SYNC_def)

section \<open>What a step of the bit loop can do\<close>

lemma deframe_body_cases [consumes 1, case_names idle acquire wait due]:
  assumes "deframe_body t1 t2 mt b lv = Some lv'"
  obtains
    (idle) d' where "put_bit (lv_def lv) b = Some d'" "lv_state lv \<noteq> ST_SYNC"
      "fvhff_match_uw d' t1 = Some False" "lv' = lv\<lparr> lv_def := d' \<rparr>"
  | (acquire) d' out where "put_bit (lv_def lv) b = Some d'" "lv_state lv \<noteq> ST_SYNC"
      "fvhff_match_uw d' t1 = Some True" "fvhff_extract_frame d' (lv_out lv) = Some out"
      "lv' = lv\<lparr> lv_def := d', lv_state := ST_SYNC, lv_last_uw := 0,
                  lv_miss_cnt := 0, lv_extracted_frame := 1,
                  lv_out := out, lv_events := lv_events lv + 1 \<rparr>"
  | (wait) d' where "put_bit (lv_def lv) b = Some d'" "lv_state lv = ST_SYNC"
      "lv_last_uw lv + 1 \<noteq> frame_size d'"
      "lv' = lv\<lparr> lv_def := d', lv_last_uw := lv_last_uw lv + 1 \<rparr>"
  | (due) d' m out where "put_bit (lv_def lv) b = Some d'" "lv_state lv = ST_SYNC"
      "lv_last_uw lv + 1 = frame_size d'"
      "fvhff_match_uw d' t2 = Some m" "fvhff_extract_frame d' (lv_out lv) = Some out"
      "lv' = lv\<lparr> lv_def := d',
                  lv_state := (if (if \<not> m then lv_miss_cnt lv + 1 else 0) > mt then ST_NOSYNC else lv_state lv),
                  lv_last_uw := 0,
                  lv_miss_cnt := (if \<not> m then lv_miss_cnt lv + 1 else 0),
                  lv_extracted_frame := 1,
                  lv_out := out, lv_events := lv_events lv + 1 \<rparr>"
proof -
  from assms obtain d' where p: "put_bit (lv_def lv) b = Some d'"
    by (auto simp: deframe_body_def bind_eq_Some_conv)
  show thesis
  proof (cases "lv_state lv = ST_SYNC")
    case False
    from assms [unfolded body_nosync [OF False p]]
    obtain m where m: "fvhff_match_uw d' t1 = Some m"
      and r: "(if m then fvhff_extract_frame d' (lv_out lv) \<bind> (\<lambda>out.
              Some (lv\<lparr> lv_def := d', lv_state := ST_SYNC, lv_last_uw := 0,
                       lv_miss_cnt := 0, lv_extracted_frame := 1,
                       lv_out := out, lv_events := lv_events lv + 1 \<rparr>))
           else Some (lv\<lparr> lv_def := d' \<rparr>)) = Some lv'"
      by (auto simp: bind_eq_Some_conv)
    show thesis
    proof (cases m)
      case True
      with r obtain out where "fvhff_extract_frame d' (lv_out lv) = Some out"
        "lv' = lv\<lparr> lv_def := d', lv_state := ST_SYNC, lv_last_uw := 0,
                  lv_miss_cnt := 0, lv_extracted_frame := 1,
                  lv_out := out, lv_events := lv_events lv + 1 \<rparr>"
        by (auto simp: bind_eq_Some_conv)
      with p False m True show thesis by (intro acquire) simp_all
    next
      case F: False
      with r have "lv' = lv\<lparr> lv_def := d' \<rparr>" by simp
      with p False m F show thesis by (intro idle) simp_all
    qed
  next
    case True
    show thesis
    proof (cases "lv_last_uw lv + 1 = frame_size d'")
      case F: False
      from assms [unfolded body_sync_wait [OF True p F]]
      have "lv' = lv\<lparr> lv_def := d', lv_last_uw := lv_last_uw lv + 1 \<rparr>" by simp
      with p True F show thesis by (intro wait) simp_all
    next
      case T: True
      from assms [unfolded body_sync_due [OF True p T]]
      obtain m out where "fvhff_match_uw d' t2 = Some m"
        "fvhff_extract_frame d' (lv_out lv) = Some out"
        "lv' = lv\<lparr> lv_def := d',
                  lv_state := (if (if \<not> m then lv_miss_cnt lv + 1 else 0) > mt then ST_NOSYNC else lv_state lv),
                  lv_last_uw := 0,
                  lv_miss_cnt := (if \<not> m then lv_miss_cnt lv + 1 else 0),
                  lv_extracted_frame := 1,
                  lv_out := out, lv_events := lv_events lv + 1 \<rparr>"
        by (auto simp: bind_eq_Some_conv)
      with p True T show thesis by (intro due) simp_all
    qed
  qed
qed

text \<open>A property of the loop variables that every step keeps holds after the loop.\<close>

lemma deframe_loop_invariant:
  assumes "deframe_loop t1 t2 mt f n i lv = Some lv'"
    and "P i lv"
    and "\<And>j b lv lv'. i \<le> j \<Longrightarrow> j < i + n \<Longrightarrow> P j lv \<Longrightarrow> rd f j = Some b \<Longrightarrow>
           deframe_body t1 t2 mt b lv = Some lv' \<Longrightarrow> P (Suc j) lv'"
  shows "P (i + n) lv'"
  using assms
proof (induction n arbitrary: i lv)
  case 0
  then show ?case by simp
next
  case (Suc n)
  from Suc.prems(1) obtain b lv1 where
    b: "rd f i = Some b" and s: "deframe_body t1 t2 mt b lv = Some lv1"
    and r: "deframe_loop t1 t2 mt f n (Suc i) lv1 = Some lv'"
    by (auto simp: bind_eq_Some_conv)
  have "P (Suc i) lv1"
    using Suc.prems(2) b s by (intro Suc.prems(3) [of i lv b lv1]) simp_all
  then have "P (Suc i + n) lv'"
  proof (rule Suc.IH [OF r])
    fix j b lv lv'
    assume "Suc i \<le> j" "j < Suc i + n" "P j lv" "rd f j = Some b"
      "deframe_body t1 t2 mt b lv = Some lv'"
    then show "P (Suc j) lv'" by (intro Suc.prems(3) [of j lv b lv']) simp_all
  qed
  then show ?case by simp
qed

lemma rd_SomeD: "rd xs i = Some x \<Longrightarrow> i < length xs \<and> x = xs ! i"
  by (auto simp: rd_def split: if_splits)

text \<open>The ring and the cursor after \<open>n\<close> bits of a call that started with the cursor at 0.\<close>

lemma run_ring:
  assumes d: "frame_size d = 96" "length (bits d) = 96" "bitptr d = 0"
    and run: "deframe_loop t1 t2 mt f n 0 lv = Some lv'" and lv: "lv_def lv = d" and n: "n \<le> 96"
  shows "lv_def lv' = fed d f n \<and> n \<le> length f"
proof -
  have "lv_def lv' = fed d f (0 + n) \<and> 0 + n \<le> length f"
  proof (rule deframe_loop_invariant [OF run, where P = "\<lambda>j lv. lv_def lv = fed d f j \<and> j \<le> length f"])
    show "lv_def lv = fed d f 0 \<and> 0 \<le> length f" using lv d by (simp add: fed_0)
  next
    fix j b lv lv'
    assume j: "0 \<le> j" "j < 0 + n" and P: "lv_def lv = fed d f j \<and> j \<le> length f"
      and b: "rd f j = Some b" and s: "deframe_body t1 t2 mt b lv = Some lv'"
    from b have jb: "j < length f" "b = f ! j" by (auto dest: rd_SomeD)
    from j n have j96: "j < 96" by simp
    have p: "put_bit (lv_def lv) b = Some (fed d f (Suc j))"
      using P jb put_bit_fed [OF d(1,2) j96 jb(1)] by simp
    from s p have "lv_def lv' = fed d f (Suc j)"
      by (cases rule: deframe_body_cases) simp_all
    with jb show "lv_def lv' = fed d f (Suc j) \<and> Suc j \<le> length f" by simp
  qed
  then show ?thesis by simp
qed

lemma put_bit_keeps:
  assumes "put_bit d b = Some d'"
  shows "frame_size d' = frame_size d" "ftype d' = ftype d"
  using assms by (auto simp: put_bit_def bind_eq_Some_conv Let_def)

text \<open>The countdown stays below the frame size.\<close>

lemma run_last_uw:
  assumes d: "frame_size d = 96" "length (bits d) = 96" "bitptr d = 0"
    and run: "deframe_loop t1 t2 mt f n 0 lv = Some lv'" and lv: "lv_def lv = d" "lv_last_uw lv < 96"
    and n: "n \<le> 96"
  shows "lv_last_uw lv' < 96"
proof -
  have "frame_size (lv_def lv') = 96 \<and> lv_last_uw lv' < 96"
  proof (rule deframe_loop_invariant [OF run,
        where P = "\<lambda>j lv. frame_size (lv_def lv) = 96 \<and> lv_last_uw lv < 96"])
    show "frame_size (lv_def lv) = 96 \<and> lv_last_uw lv < 96" using lv d by simp
  next
    fix j b lv lv'
    assume P: "frame_size (lv_def lv) = 96 \<and> lv_last_uw lv < 96"
      and s: "deframe_body t1 t2 mt b lv = Some lv'"
    from s P show "frame_size (lv_def lv') = 96 \<and> lv_last_uw lv' < 96"
      by (cases rule: deframe_body_cases) (auto dest: put_bit_keeps)
  qed
  then show ?thesis by simp
qed

text \<open>Until the first extraction of a call the outputs are as the caller passed them.\<close>

lemma run_untouched:
  assumes run: "deframe_loop t1 t2 mt f n i lv = Some lv'" and lv: "lv_extracted_frame lv = 0"
  shows "lv_extracted_frame lv' = 0 \<and> lv_out lv' = lv_out lv \<and> lv_events lv' = lv_events lv
       \<or> lv_extracted_frame lv' = 1 \<and> lv_events lv < lv_events lv'"
proof (rule deframe_loop_invariant [OF run,
      where P = "\<lambda>j l. lv_extracted_frame l = 0 \<and> lv_out l = lv_out lv \<and> lv_events l = lv_events lv
         \<or> lv_extracted_frame l = 1 \<and> lv_events lv < lv_events l"])
  show "lv_extracted_frame lv = 0 \<and> lv_out lv = lv_out lv \<and> lv_events lv = lv_events lv
       \<or> lv_extracted_frame lv = 1 \<and> lv_events lv < lv_events lv"
    using lv by simp
next
  fix j b l l'
  assume P: "lv_extracted_frame l = 0 \<and> lv_out l = lv_out lv \<and> lv_events l = lv_events lv
         \<or> lv_extracted_frame l = 1 \<and> lv_events lv < lv_events l"
    and s: "deframe_body t1 t2 mt b l = Some l'"
  from s P show "lv_extracted_frame l' = 0 \<and> lv_out l' = lv_out lv \<and> lv_events l' = lv_events lv
         \<or> lv_extracted_frame l' = 1 \<and> lv_events lv < lv_events l'"
    by (cases rule: deframe_body_cases) auto
qed

text \<open>
  How many extractions the rest of a call can still bring: none while the countdown
  cannot run out, one for a countdown that runs out, one more if that can lose the lock,
  one for an unsynchronized deframer.
\<close>

lemma run_events:
  assumes run: "deframe_loop t1 t2 2 f n 0 lv = Some lv'" and n: "n = frame_size (lv_def lv)"
  shows "lv_events lv' \<le> lv_events lv +
      (if lv_state lv = ST_SYNC \<and> 2 \<le> lv_miss_cnt lv then 2 else 1)"
proof -
  define F where "F = frame_size (lv_def lv)"
  define budget :: "loop_vars \<Rightarrow> nat \<Rightarrow> nat" where
    "budget = (\<lambda>l r. if lv_state l = ST_SYNC
        then (if lv_last_uw l + r < F then 0 else if 2 \<le> lv_miss_cnt l then 2 else 1)
        else 1)"
  define B where "B = lv_events lv + budget lv F"
  have "frame_size (lv_def lv') = F \<and> lv_events lv' + budget lv' (F - (0 + n)) \<le> B"
  proof (rule deframe_loop_invariant [OF run,
        where P = "\<lambda>j l. frame_size (lv_def l) = F \<and> lv_events l + budget l (F - j) \<le> B"])
    show "frame_size (lv_def lv) = F \<and> lv_events lv + budget lv (F - 0) \<le> B"
      by (simp add: F_def B_def)
  next
    fix j b l l'
    assume j: "j < 0 + n"
      and P: "frame_size (lv_def l) = F \<and> lv_events l + budget l (F - j) \<le> B"
      and s: "deframe_body t1 t2 2 b l = Some l'"
    from j n have jF: "j < F" by (simp add: F_def)
    from s show "frame_size (lv_def l') = F \<and> lv_events l' + budget l' (F - Suc j) \<le> B"
    proof (cases rule: deframe_body_cases)
      case (idle d')
      with P put_bit_keeps(1) [OF idle(1)] show ?thesis by (simp add: budget_def)
    next
      case (acquire d' out)
      with P put_bit_keeps(1) [OF acquire(1)] jF show ?thesis by (simp add: budget_def)
    next
      case (wait d')
      have e: "lv_last_uw l' + (F - Suc j) = lv_last_uw l + (F - j)"
        using wait(4) jF by simp
      have "lv_state l' = lv_state l" "lv_miss_cnt l' = lv_miss_cnt l" "lv_events l' = lv_events l"
        "frame_size (lv_def l') = frame_size d'"
        using wait(4) by simp_all
      then have "budget l' (F - Suc j) = budget l (F - j)" "lv_events l' = lv_events l"
        "frame_size (lv_def l') = F"
        unfolding budget_def e using put_bit_keeps(1) [OF wait(1)] P by simp_all
      with P show ?thesis by simp
    next
      case (due d' m out)
      from due(3) put_bit_keeps(1) [OF due(1)] P have l: "lv_last_uw l + 1 = F" by simp
      with jF have "\<not> lv_last_uw l + (F - j) < F" by simp
      with due(2) have b: "budget l (F - j) = (if 2 \<le> lv_miss_cnt l then 2 else 1)"
        by (simp add: budget_def)
      have bl: "budget l' (F - Suc j) \<le> (if 2 \<le> lv_miss_cnt l then 1 else 0)"
        using due(2,6) jF by (auto simp: budget_def)
      have ev: "lv_events l' = lv_events l + 1" and fs: "frame_size (lv_def l') = frame_size d'"
        using due(6) by simp_all
      from b bl ev have "lv_events l' + budget l' (F - Suc j) \<le> lv_events l + budget l (F - j)"
        by (cases "2 \<le> lv_miss_cnt l") simp_all
      with P fs put_bit_keeps(1) [OF due(1)] show ?thesis by simp
    qed
  qed
  then have "lv_events lv' \<le> B" by simp
  also have "B \<le> lv_events lv + (if lv_state lv = ST_SYNC \<and> 2 \<le> lv_miss_cnt lv then 2 else 1)"
    by (simp add: B_def budget_def)
  finally show ?thesis .
qed

section \<open>Cleared output bytes\<close>

lemma memset0_Some:
  assumes "memset0 buf k = Some c"
  shows "length c = length buf" "\<And>b. b < k \<Longrightarrow> c ! b = 0"
  using assms by (auto simp: memset0_def nth_append split: if_splits)

lemma cleared_field:
  assumes "(memset0 buf k \<bind> (\<lambda>c. pack_bits ring fs n1 s1 0 c \<bind> pack_bits ring fs n2 s2 n1)) = Some out"
    and "b < k" "bit (out ! b) m"
  shows "m < 8 \<and> 8 * b + 7 - m < n1 + n2"
proof -
  from assms(1) obtain c0 c1 where
    c0: "memset0 buf k = Some c0" and c1: "pack_bits ring fs n1 s1 0 c0 = Some c1"
    and c2: "pack_bits ring fs n2 s2 n1 c1 = Some out"
    by (auto simp: bind_eq_Some_conv)
  from pack_bits_upper [OF c2] assms(3)
  have "bit (c1 ! b) m \<or> (m < 8 \<and> n1 \<le> 8 * b + 7 - m \<and> 8 * b + 7 - m < n1 + n2)" by blast
  moreover from pack_bits_upper [OF c1]
  have "bit (c1 ! b) m \<Longrightarrow> bit (c0 ! b) m \<or> (m < 8 \<and> 0 \<le> 8 * b + 7 - m \<and> 8 * b + 7 - m < 0 + n1)"
    by blast
  moreover have "\<not> bit (c0 ! b) m" using memset0_Some(2) [OF c0 assms(2)] by simp
  ultimately show ?thesis by auto
qed

lemma low_nibble_zero:
  fixes x :: byte
  assumes "\<And>m. bit x m \<Longrightarrow> 4 \<le> m"
  shows "x AND 0x0F = 0"
proof (rule bit_eqI)
  fix m
  have e: "(0x0F :: byte) = mask 4" by (simp add: mask_eq_exp_minus_1)
  have "bit (x AND mask 4) m \<longleftrightarrow> bit x m \<and> m < 4" by (auto simp: bit_and_iff bit_mask_iff)
  with assms [of m] show "bit (x AND 0x0F) m \<longleftrightarrow> bit (0 :: byte) m"
    unfolding e by auto
qed

section \<open>When extraction succeeds\<close>

lemma extract_frame_result:
  assumes d: "ftype d = FREEDV_VHF_FRAME_A" "frame_size d = 96" "length (bits d) = 96" "bitptr d < 96"
    and o: "outputs_ok out"
  shows "(vc_out out \<noteq> None \<and> bitptr d = 5 \<longrightarrow> fvhff_extract_frame d out = None)
       \<and> (vc_out out = None \<or> bitptr d \<noteq> 5 \<longrightarrow>
            (\<exists>out'. fvhff_extract_frame d out = Some out' \<and> outputs_ok out'))"
proof -
  from o have oc: "7 \<le> length (codec2_out out)" by (simp add: outputs_ok_def)
  from extract_codec2_bits [OF d(2,3,4) oc] obtain c where
    c: "extract_codec2 d (codec2_out out) = Some c" "length c = length (codec2_out out)"
    by blast
  define vres where "vres = (case vc_out out of None \<Rightarrow> Some None
       | Some vc \<Rightarrow> extract_vc d vc \<bind> (\<lambda>vc. Some (Some vc)))"
  define pres where "pres = (case proto_out out of None \<Rightarrow> Some None
       | Some proto \<Rightarrow> extract_proto d proto \<bind> (\<lambda>proto. Some (Some proto)))"
  have x: "fvhff_extract_frame d out =
      vres \<bind> (\<lambda>v. pres \<bind> (\<lambda>p. Some \<lparr> codec2_out = c, proto_out = p, vc_out = v \<rparr>))"
    using d(1) c(1) by (simp add: fvhff_extract_frame_def vres_def pres_def)
  have pr: "\<exists>p. pres = Some p \<and> (case p of None \<Rightarrow> True | Some q \<Rightarrow> 3 \<le> length q)"
  proof (cases "proto_out out")
    case None
    then show ?thesis by (simp add: pres_def)
  next
    case (Some po)
    with o have "3 \<le> length po" by (simp add: outputs_ok_def)
    from extract_proto_bits [OF d(2,3,4) this] obtain q where
      "extract_proto d po = Some q" "length q = length po" by blast
    with Some \<open>3 \<le> length po\<close> show ?thesis by (simp add: pres_def)
  qed
  have vr1: "vres = None" if "vc_out out \<noteq> None" "bitptr d = 5"
  proof -
    from that obtain vo where vo: "vc_out out = Some vo" by auto
    with o have "2 \<le> length vo" by (simp add: outputs_ok_def)
    from extract_vc_eq [OF d(2,3,4) this] that(2) vo show ?thesis by (simp add: vres_def)
  qed
  have vr2: "\<exists>v. vres = Some v \<and> (case v of None \<Rightarrow> True | Some w \<Rightarrow> 2 \<le> length w)"
    if "vc_out out = None \<or> bitptr d \<noteq> 5"
  proof (cases "vc_out out")
    case None
    then show ?thesis by (simp add: vres_def)
  next
    case (Some vo)
    with o have l: "2 \<le> length vo" by (simp add: outputs_ok_def)
    from that Some have "bitptr d \<noteq> 5" by simp
    with extract_vc_eq [OF d(2,3,4) l] Some l show ?thesis by (simp add: vres_def)
  qed
  show ?thesis
  proof (intro conjI impI)
    assume "vc_out out \<noteq> None \<and> bitptr d = 5"
    with vr1 x show "fvhff_extract_frame d out = None" by simp
  next
    assume "vc_out out = None \<or> bitptr d \<noteq> 5"
    from vr2 [OF this] pr obtain v p where
      "vres = Some v" "case v of None \<Rightarrow> True | Some w \<Rightarrow> 2 \<le> length w"
      "pres = Some p" "case p of None \<Rightarrow> True | Some q \<Rightarrow> 3 \<le> length q"
      by blast
    with x c(2) oc show "\<exists>out'. fvhff_extract_frame d out = Some out' \<and> outputs_ok out'"
      by (simp add: outputs_ok_def)
  qed
qed

section \<open>Frames with flipped unique-word bits\<close>

lemma xor_1_differs: "(x :: byte) XOR 1 \<noteq> x"
proof
  assume "x XOR 1 = x"
  then have "x XOR (x XOR 1) = x XOR x" by simp
  then have "(1 :: byte) = 0" by (simp add: xor.assoc [symmetric])
  then show False by simp
qed




section \<open>Calls that keep, lose or acquire synchronization\<close>

lemma uw_flipped_nth:
  assumes "uw_flipped f" "96 \<le> length f" "j < 16"
  shows "f ! (40 + j) = A_uw ! j XOR 1"
proof -
  have "f ! (40 + j) = take 16 (drop 40 f) ! j" using assms(2,3) by simp
  also have "\<dots> = map (\<lambda>u. u XOR 1) A_uw ! j" using assms(1) by (simp add: uw_flipped_def)
  also have "\<dots> = A_uw ! j XOR 1" using assms(3) by simp
  finally show ?thesis .
qed

text \<open>A synchronized deframer at a frame boundary receives a frame whose UW is all wrong.\<close>

lemma sync_miss_call:
  assumes d: "ftype d = FREEDV_VHF_FRAME_A" "frame_size d = 96" "length (bits d) = 96" "bitptr d = 0"
    and s: "state d = ST_SYNC" "last_uw d = 0"
    and f: "96 \<le> length f" "uw_flipped f" and o: "outputs_ok out"
  shows "\<exists>out'. fvhff_extract_frame (fed d f 96) out = Some out' \<and> outputs_ok out' \<and>
      fvhff_deframe_bits d out f =
        Some ((fed d f 96)\<lparr> state := (if miss_cnt d + 1 > 2 then ST_NOSYNC else ST_SYNC),
                               last_uw := 0, miss_cnt := miss_cnt d + 1 \<rparr>, out', 1)"
proof -
  have "filter (\<lambda>j. f ! (40 + j) \<noteq> A_uw ! j) [0..<16] = [0..<16]"
    using uw_flipped_nth [OF f(2,1)] by (simp add: filter_id_conv xor_1_differs)
  then have m: "fvhff_match_uw (fed d f 96) 1 = Some False"
    unfolding match_aligned [OF d(1,2,3) f(1)] by simp
  have "ftype (fed d f 96) = FREEDV_VHF_FRAME_A" "frame_size (fed d f 96) = 96"
    "length (bits (fed d f 96)) = 96" "bitptr (fed d f 96) < 96"
    using d f(1) by simp_all
  from extract_frame_result [OF this o] d(2) obtain out' where
    x: "fvhff_extract_frame (fed d f 96) out = Some out'" "outputs_ok out'"
    by auto
  have "deframe_run d out f = Some \<lparr> lv_def = fed d f 96,
        lv_state = (if miss_cnt d + 1 > 2 then ST_NOSYNC else ST_SYNC), lv_last_uw = 0,
        lv_miss_cnt = miss_cnt d + 1, lv_extracted_frame = 1, lv_out = out', lv_events = 1 \<rparr>"
    unfolding sync_call [OF d(2,3,4) s f(1)] using m x(1) by simp
  with d(1) x show ?thesis by (simp add: fvhff_deframe_bits_def)
qed


section \<open>Calls that return\<close>





section \<open>The fields that an aligned extraction stores\<close>

lemma msb_first_index:
  "8 * (k div 8) + 7 - (7 - k mod 8) = (k :: nat)"
proof -
  define r where "r = k mod 8"
  have r: "r < 8" by (simp add: r_def)
  have "8 * (k div 8) + r = k" by (simp add: r_def)
  with r show ?thesis unfolding r_def [symmetric] by linarith
qed

lemma aligned_extraction:
  assumes d: "ftype d = FREEDV_VHF_FRAME_A" "frame_size d = 96" "length (bits d) = 96"
    and f: "96 \<le> length f" and o: "outputs_ok out"
    and x: "fvhff_extract_frame (fed d f 96) out = Some out'"
  shows "holds_fields out' f"
proof -
  define R where "R = fed d f 96"
  have R: "ftype R = FREEDV_VHF_FRAME_A" "frame_size R = 96" "length (bits R) = 96" "bitptr R = 0"
    using d f by (simp_all add: R_def)
  have bp: "bitptr R < 96" using R(4) by simp
  have ring: "bits R ! i = f ! i" if "i < 96" for i
    using that d f by (simp add: R_def fed_def nth_append)
  from x R(1) obtain c v p where
    c: "extract_codec2 R (codec2_out out) = Some c"
    and v: "(case vc_out out of None \<Rightarrow> Some None
         | Some vc \<Rightarrow> extract_vc R vc \<bind> (\<lambda>vc. Some (Some vc))) = Some v"
    and p: "(case proto_out out of None \<Rightarrow> Some None
         | Some proto \<Rightarrow> extract_proto R proto \<bind> (\<lambda>proto. Some (Some proto))) = Some p"
    and o': "out' = \<lparr> codec2_out = c, proto_out = p, vc_out = v \<rparr>"
    unfolding R_def [symmetric] by (auto simp: fvhff_extract_frame_def bind_eq_Some_conv)
  from o have oc: "7 \<le> length (codec2_out out)" by (simp add: outputs_ok_def)
  from extract_codec2_bits [OF R(2,3) bp oc] c have
    cl: "length c = length (codec2_out out)"
    and cb: "\<And>b m. b < 7 \<Longrightarrow> bit (c ! b) m \<longleftrightarrow>
        m < 8 \<and> (8 * b + 7 - m < 24 \<and> bit (bits R ! ((bitptr R + 16 + (8 * b + 7 - m)) mod 96)) 0
               \<or> 24 \<le> 8 * b + 7 - m \<and> 8 * b + 7 - m < 52
                 \<and> bit (bits R ! ((bitptr R + 56 + (8 * b + 7 - m - 24)) mod 96)) 0)"
    by auto
  have c1: "bit (c ! (k div 8)) (7 - k mod 8) = bit (f ! (if k < 24 then 16 + k else 32 + k)) 0"
    if "k < 52" for k
  proof -
    from that have b: "k div 8 < 7" by simp
    have m: "7 - k mod 8 < 8" by simp
    from that have i: "16 + k < 96" "32 + k < 96" by simp_all
    show ?thesis
      unfolding cb [OF b] msb_first_index R(4)
      using that m ring [OF i(1)] ring [OF i(2)] by (auto simp: add.commute)
  qed
  have c2: "c ! 6 AND 0x0F = 0"
  proof (rule low_nibble_zero)
    fix m assume "bit (c ! 6) m"
    with cb [of 6 m] have "m < 8 \<and> 8 * 6 + 7 - m < 52" by auto
    then show "4 \<le> m" by arith
  qed
  have P: "3 \<le> length q
      \<and> list_all (\<lambda>k. bit (q ! (k div 8)) (7 - k mod 8)
                        = bit (f ! (if k < 12 then 4 + k else 72 + k)) 0) [0..<20]
      \<and> q ! 2 AND 0x0F = 0" if "p = Some q" for q
  proof -
    from p that obtain po where po: "proto_out out = Some po" "extract_proto R po = Some q"
      by (auto simp: bind_eq_Some_conv split: option.splits)
    with o have ol: "3 \<le> length po" by (simp add: outputs_ok_def)
    from extract_proto_bits [OF R(2,3) bp ol] po(2) have
      pl: "length q = length po"
      and pb: "\<And>b m. b < 3 \<Longrightarrow> bit (q ! b) m \<longleftrightarrow>
        m < 8 \<and> (8 * b + 7 - m < 12 \<and> bit (bits R ! ((bitptr R + 4 + (8 * b + 7 - m)) mod 96)) 0
               \<or> 12 \<le> 8 * b + 7 - m \<and> 8 * b + 7 - m < 20
                 \<and> bit (bits R ! ((bitptr R + 84 + (8 * b + 7 - m - 12)) mod 96)) 0)"
      by auto
    have p1: "bit (q ! (k div 8)) (7 - k mod 8) = bit (f ! (if k < 12 then 4 + k else 72 + k)) 0"
      if "k < 20" for k
    proof -
      from that have b: "k div 8 < 3" by simp
      have m: "7 - k mod 8 < 8" by simp
      from that have i: "4 + k < 96" "72 + k < 96" by simp_all
      show ?thesis
        unfolding pb [OF b] msb_first_index R(4)
        using that m ring [OF i(1)] ring [OF i(2)] by (auto simp: add.commute)
    qed
    have p2: "q ! 2 AND 0x0F = 0"
    proof (rule low_nibble_zero)
      fix m assume "bit (q ! 2) m"
      with pb [of 2 m] have "m < 8 \<and> 8 * 2 + 7 - m < 20" by auto
      then show "4 \<le> m" by arith
    qed
    from p1 p2 pl ol show ?thesis by (simp add: list_all_iff)
  qed
  have V: "2 \<le> length w \<and> w ! 0 = f ! 90 \<and> w ! 1 = f ! 91" if "v = Some w" for w
  proof -
    from v that obtain vo where vo: "vc_out out = Some vo" "extract_vc R vo = Some w"
      by (auto simp: bind_eq_Some_conv split: option.splits)
    with o have vl: "2 \<le> length vo" by (simp add: outputs_ok_def)
    then have l: "0 < length vo" "1 < length vo" by auto
    from extract_vc_eq [OF R(2,3) bp vl] vo(2) R(4)
    have "w = vo[0 := bits R ! 90, 1 := bits R ! 91]" by simp
    with l vl ring [of 90] ring [of 91] show ?thesis by simp
  qed
  from c1 have "list_all (\<lambda>k. bit (c ! (k div 8)) (7 - k mod 8)
                        = bit (f ! (if k < 24 then 16 + k else 32 + k)) 0) [0..<52]"
    by (simp add: list_all_iff)
  moreover have "case p of None \<Rightarrow> True
         | Some q \<Rightarrow> 3 \<le> length q
             \<and> list_all (\<lambda>k. bit (q ! (k div 8)) (7 - k mod 8)
                               = bit (f ! (if k < 12 then 4 + k else 72 + k)) 0) [0..<20]
             \<and> q ! 2 AND 0x0F = 0"
  proof (cases p)
    case None
    then show ?thesis by simp
  next
    case (Some q)
    from P [OF Some] show ?thesis unfolding Some option.case .
  qed
  moreover have "case v of None \<Rightarrow> True
         | Some w \<Rightarrow> 2 \<le> length w \<and> w ! 0 = f ! 90 \<and> w ! 1 = f ! 91"
  proof (cases v)
    case None
    then show ?thesis by simp
  next
    case (Some w)
    from V [OF Some] show ?thesis unfolding Some option.case .
  qed
  moreover have "7 \<le> length c" using cl oc by simp
  ultimately show ?thesis
    unfolding holds_fields_def o' outputs.select_convs using c2 by (intro conjI)
qed

section \<open>Evaluations at the sample data\<close>

lemma create_idle: "fvhff_create_deframer 1 True (Some (\<lambda>_. 0)) = Some idle_deframer"
  by code_simp

lemma sample_frame_bits:
  "fvhff_frame_bits FREEDV_VHF_FRAME_A zero_bits sample_codec2 (Some sample_proto) (Some [0, 0])
     = Some sample_frame"
  by code_simp

lemma sample_no_early_sync: "\<not> early_sync idle_deframer sample_frame"
  by code_simp



lemma quiet_call:
  "fvhff_deframe_bits idle_deframer sample_outputs zero_bits = Some (idle_deframer, sample_outputs, 0)"
  by code_simp

lemma drift_call_1:
  "fvhff_deframe_bits idle_deframer sample_outputs uw_at_0
     = Some (idle_deframer\<lparr> state := ST_SYNC, bits := uw_at_0, last_uw := 40 \<rparr>, sample_outputs, 1)"
  by code_simp

lemma drift_call_2:
  "fvhff_deframe_bits (idle_deframer\<lparr> state := ST_SYNC, bits := uw_at_0, last_uw := 40 \<rparr>)
       sample_outputs zero_bits
     = Some (idle_deframer\<lparr> state := ST_SYNC, last_uw := 40, miss_cnt := 1 \<rparr>, sample_outputs, 1)"
  by code_simp

lemma drift_call_3:
  "fvhff_deframe_bits (idle_deframer\<lparr> state := ST_SYNC, last_uw := 40, miss_cnt := 1 \<rparr>)
       sample_outputs zero_bits
     = Some (idle_deframer\<lparr> state := ST_SYNC, last_uw := 40, miss_cnt := 2 \<rparr>, sample_outputs, 1)"
  by code_simp

lemma drift_call_4:
  "extraction_events (idle_deframer\<lparr> state := ST_SYNC, last_uw := 40, miss_cnt := 2 \<rparr>)
       sample_outputs uw_at_1 = Some 2"
  by code_simp

lemma offset_call_1:
  "fvhff_deframe_bits idle_deframer sample_outputs uw_at_45
     = Some (idle_deframer\<lparr> bits := uw_at_45 \<rparr>, sample_outputs, 0)"
  by code_simp

lemma offset_call_2:
  "fvhff_deframe_bits (idle_deframer\<lparr> bits := uw_at_45 \<rparr>) sample_outputs zero_bits = None"
  by code_simp

lemma offset_call_2_without_vc:
  "fvhff_deframe_bits (idle_deframer\<lparr> bits := uw_at_45 \<rparr>) (sample_outputs\<lparr> vc_out := None \<rparr>) zero_bits
     \<noteq> None"
  by code_simp

lemma locked_call_events:
  "extraction_events (idle_deframer\<lparr> state := ST_SYNC \<rparr>) sample_outputs zero_bits = Some 1"
  by code_simp

lemma drift_loop_3:
  "map_option (\<lambda>lv. bitptr (lv_def lv))
     (deframe_loop 2 1 2 zero_bits 3 0
        \<lparr> lv_def = idle_deframer\<lparr> state := ST_SYNC, last_uw := 40, miss_cnt := 2 \<rparr>,
          lv_state = ST_SYNC, lv_last_uw = 40, lv_miss_cnt = 2, lv_extracted_frame = 0,
          lv_out = sample_outputs, lv_events = 0 \<rparr>) = Some 3"
  by code_simp

lemma ones_extracted:
  "fvhff_extract_frame (idle_deframer\<lparr> bits := one_bits \<rparr>) sample_outputs
     = Some \<lparr> codec2_out = [255, 255, 255, 255, 255, 255, 240],
              proto_out = Some [255, 255, 240], vc_out = Some [1, 1] \<rparr>"
  by code_simp

lemma uw_payload_frame_bits:
  "fvhff_frame_bits FREEDV_VHF_FRAME_A zero_bits [0x67, 0xAD, 0, 0, 0, 0, 0] (Some sample_proto) (Some [0, 0])
     = Some uw_payload_frame"
  by code_simp

lemma uw_payload_call:
  "fvhff_deframe_bits idle_deframer sample_outputs uw_payload_frame
     = Some (idle_deframer\<lparr> state := ST_SYNC, bits := uw_payload_frame, last_uw := 24 \<rparr>,
             \<lparr> codec2_out = [0, 170, 114, 0, 103, 173, 0], proto_out = Some [0, 0, 0],
               vc_out = Some [0, 0] \<rparr>, 1)"
  by code_simp

lemma cursor_5_extraction:
  "fvhff_extract_frame (idle_deframer\<lparr> bits := uw_at_45, bitptr := 5 \<rparr>) sample_outputs = None"
  by code_simp

lemma bad_uw_call_1:
  "fvhff_deframe_bits (idle_deframer\<lparr> state := ST_SYNC \<rparr>) sample_outputs bad_uw_frame
     = Some (idle_deframer\<lparr> state := ST_SYNC, bits := bad_uw_frame, miss_cnt := 1 \<rparr>,
             sample_extracted, 1)"
  by code_simp

lemma bad_uw_call_2:
  "fvhff_deframe_bits (idle_deframer\<lparr> state := ST_SYNC, bits := bad_uw_frame, miss_cnt := 1 \<rparr>)
       sample_extracted bad_uw_frame
     = Some (idle_deframer\<lparr> state := ST_SYNC, bits := bad_uw_frame, miss_cnt := 2 \<rparr>,
             sample_extracted, 1)"
  by code_simp

lemma bad_uw_call_3:
  "fvhff_deframe_bits (idle_deframer\<lparr> state := ST_SYNC, bits := bad_uw_frame, miss_cnt := 2 \<rparr>)
       sample_extracted bad_uw_frame
     = Some (idle_deframer\<lparr> bits := bad_uw_frame, miss_cnt := 3 \<rparr>, sample_extracted, 1)"
  by code_simp


lemma drift_reachable:
  "reachable (idle_deframer\<lparr> state := ST_SYNC, last_uw := 40, miss_cnt := 2 \<rparr>)"
proof -
  have "reachable idle_deframer" using create_idle by (rule reachable.created)
  then have "reachable (idle_deframer\<lparr> state := ST_SYNC, bits := uw_at_0, last_uw := 40 \<rparr>)"
    using drift_call_1 by (rule reachable.called)
  then have "reachable (idle_deframer\<lparr> state := ST_SYNC, last_uw := 40, miss_cnt := 1 \<rparr>)"
    using drift_call_2 by (rule reachable.called)
  then show ?thesis using drift_call_3 by (rule reachable.called)
qed

section \<open>The framer: protocol bits, side-channel bits and the template\<close>

text \<open>
  Claim C6. Protocol-over-side-channel write precedence: when \<^verbatim>\<open>fvhff_frame_bits\<close>
  is called for type A with both \<^verbatim>\<open>proto_in\<close> and \<^verbatim>\<open>vc_in\<close> supplied, the call
  succeeds and the output frame bits 90 and 91 are the protocol input bits 18 and 19,
  counted MSB first: the bits 5 and 4 of the byte \<^verbatim>\<open>proto_in[2]\<close>, whatever \<^verbatim>\<open>vc_in\<close>
  holds.
\<close>

theorem frame_bits_protocol_precedence:
  assumes "96 \<le> length bits_out" "7 \<le> length codec2_in" "3 \<le> length proto" "2 \<le> length vc"
  shows "\<exists>out. fvhff_frame_bits FREEDV_VHF_FRAME_A bits_out codec2_in (Some proto) (Some vc) = Some out
      \<and> out ! 90 = drop_bit 5 (proto ! 2) AND 1
      \<and> out ! 91 = drop_bit 4 (proto ! 2) AND 1"
proof -
  have v: "case Some vc of None \<Rightarrow> True | Some vc \<Rightarrow> 2 \<le> length vc"
    and p: "case Some proto of None \<Rightarrow> True | Some proto \<Rightarrow> 3 \<le> length proto"
    using assms by simp_all
  have b: "UNPACK_BIT_MSBFIRST proto 18 = Some (drop_bit 5 (proto ! 2) AND 1)"
    "UNPACK_BIT_MSBFIRST proto 19 = Some (drop_bit 4 (proto ! 2) AND 1)"
    using assms(3) by (simp_all add: UNPACK_Some)
  show ?thesis
  proof (rule frame_bits_A [OF assms(1,2) v p])
    fix out
    assume o: "fvhff_frame_bits FREEDV_VHF_FRAME_A bits_out codec2_in (Some proto) (Some vc) = Some out"
      and u: "\<And>pr k. Some proto = Some pr \<Longrightarrow> k < 8 \<Longrightarrow>
                Some (out ! (84 + k)) = UNPACK_BIT_MSBFIRST pr (12 + k)"
    from u [of proto 6] u [of proto 7] o show ?thesis by (simp add: b)
  qed
qed

theorem frame_bits_protocol_precedence_witness:
  "96 \<le> length (replicate 96 (0::byte)) \<and> 7 \<le> length [0,0,0,0,0,0,0::byte]
   \<and> 3 \<le> length [0xA7, 0x27, 0x20 :: byte] \<and> 2 \<le> length [0, 1 :: byte]
   \<and> (\<exists>out. fvhff_frame_bits FREEDV_VHF_FRAME_A (replicate 96 0) [0,0,0,0,0,0,0]
          (Some [0xA7, 0x27, 0x20]) (Some [0, 1]) = Some out
      \<and> out ! 90 = 1 \<and> out ! 91 = 0)"
proof -
  have h: "96 \<le> length (replicate 96 (0::byte))" "7 \<le> length [0,0,0,0,0,0,0::byte]"
    "3 \<le> length [0xA7, 0x27, 0x20 :: byte]" "2 \<le> length [0, 1 :: byte]"
    by simp_all
  have b: "drop_bit 5 ([0xA7, 0x27, 0x20 :: byte] ! 2) AND 1 = 1"
    "drop_bit 4 ([0xA7, 0x27, 0x20 :: byte] ! 2) AND 1 = 0"
    by simp_all
  from frame_bits_protocol_precedence [OF h] show ?thesis unfolding b using h by blast
qed




section \<open>Round trip through framer and deframer\<close>

text \<open>
  Claim C1, as amended. A frame assembled by \<^verbatim>\<open>fvhff_frame_bits\<close> from a 52-bit payload,
  a 20-bit protocol field and a side-channel pair is fed once to a freshly created
  deframer. Provided the unique-word test does not already succeed on one of the first 95
  bit positions of the call (on payload or protocol bits and the old contents of the
  ring), the call returns 1, the deframer is synchronized, the extracted payload and
  protocol bytes are the inputs, and the extracted side-channel bits are the protocol
  bits 18 and 19.
\<close>

theorem frame_round_trip:
  assumes fresh: "fvhff_create_deframer t ok buf = Some d"
    and c: "length codec2_in = 7" "codec2_in ! 6 AND 0x0F = 0"
    and p: "length proto_in = 3" "proto_in ! 2 AND 0x0F = 0"
    and v: "2 \<le> length vc_in"
    and b: "96 \<le> length bits_out"
    and fr: "fvhff_frame_bits FREEDV_VHF_FRAME_A bits_out codec2_in (Some proto_in) (Some vc_in) = Some frame"
    and o: "7 \<le> length co" "3 \<le> length po" "2 \<le> length vo"
    and e: "\<not> early_sync d frame"
  shows "\<exists>d' c' p' v'.
      fvhff_deframe_bits d \<lparr> codec2_out = co, proto_out = Some po, vc_out = Some vo \<rparr> frame
        = Some (d', \<lparr> codec2_out = c', proto_out = Some p', vc_out = Some v' \<rparr>, 1)
      \<and> fvhff_synchronized d'
      \<and> take 7 c' = codec2_in \<and> take 3 p' = proto_in
      \<and> Some (v' ! 0) = UNPACK_BIT_MSBFIRST proto_in 18
      \<and> Some (v' ! 1) = UNPACK_BIT_MSBFIRST proto_in 19"
proof -
  note d = fresh_deframer [OF fresh]
  have cl: "7 \<le> length codec2_in" using c(1) by simp
  have vl: "case Some vc_in of None \<Rightarrow> True | Some vc \<Rightarrow> 2 \<le> length vc" using v by simp
  have pl: "case Some proto_in of None \<Rightarrow> True | Some proto \<Rightarrow> 3 \<le> length proto" using p(1) by simp
  show ?thesis
  proof (rule frame_bits_A [OF b cl vl pl])
    fix out
    assume out: "fvhff_frame_bits FREEDV_VHF_FRAME_A bits_out codec2_in (Some proto_in) (Some vc_in) = Some out"
      and len: "length out = length bits_out"
      and tmpl: "\<And>j. j < 4 \<or> (40 \<le> j \<and> j < 56) \<or> (92 \<le> j \<and> j < 96) \<Longrightarrow> out ! j = A_blank ! j"
      and c1: "\<And>k. k < 24 \<Longrightarrow> Some (out ! (16 + k)) = UNPACK_BIT_MSBFIRST codec2_in k"
      and c2: "\<And>k. k < 28 \<Longrightarrow> Some (out ! (56 + k)) = UNPACK_BIT_MSBFIRST codec2_in (24 + k)"
      and p1: "\<And>proto k. Some proto_in = Some proto \<Longrightarrow> k < 12 \<Longrightarrow>
                Some (out ! (4 + k)) = UNPACK_BIT_MSBFIRST proto k"
      and p2: "\<And>proto k. Some proto_in = Some proto \<Longrightarrow> k < 8 \<Longrightarrow>
                Some (out ! (84 + k)) = UNPACK_BIT_MSBFIRST proto (12 + k)"
    from out fr have [simp]: "out = frame" by simp
    have fl: "96 \<le> length frame" using len b by simp
    define R where "R = fed d frame 96"
    have R: "ftype R = FREEDV_VHF_FRAME_A" "frame_size R = 96" "length (bits R) = 96" "bitptr R = 0"
      using d fl by (simp_all add: R_def)
    have Rn: "bits R ! j = frame ! j" if "j < 96" for j
      using that d fl by (simp add: R_def)
    have uw: "filter (\<lambda>j. frame ! (40 + j) \<noteq> A_uw ! j) [0..<16] = []"
      using tmpl A_blank_uw by (auto simp: filter_empty_conv)
    have m: "fvhff_match_uw R 2 = Some True"
      unfolding R_def match_aligned [OF d(1,2,3) fl] uw by simp
    from extract_fields [OF R c(1,2) _ _ p(1,2) _ _ o]
    obtain c' p' v' where
      x: "fvhff_extract_frame R \<lparr> codec2_out = co, proto_out = Some po, vc_out = Some vo \<rparr>
            = Some \<lparr> codec2_out = c', proto_out = Some p', vc_out = Some v' \<rparr>"
         "take 7 c' = codec2_in" "take 3 p' = proto_in"
         "Some (v' ! 0) = UNPACK_BIT_MSBFIRST proto_in 18"
         "Some (v' ! 1) = UNPACK_BIT_MSBFIRST proto_in 19"
      using c1 c2 p1 p2 by (auto simp: Rn)
    have s: "state d \<noteq> ST_SYNC" using d(5) by simp
    have run: "deframe_run d \<lparr> codec2_out = co, proto_out = Some po, vc_out = Some vo \<rparr> frame
        = Some \<lparr> lv_def = R, lv_state = ST_SYNC, lv_last_uw = 0, lv_miss_cnt = 0,
                 lv_extracted_frame = 1,
                 lv_out = \<lparr> codec2_out = c', proto_out = Some p', vc_out = Some v' \<rparr>,
                 lv_events = 1 \<rparr>"
      unfolding nosync_call [OF d(1,2,3,4) s fl e] using m x(1) by (simp add: R_def)
    have "fvhff_deframe_bits d \<lparr> codec2_out = co, proto_out = Some po, vc_out = Some vo \<rparr> frame
        = Some (R\<lparr> state := ST_SYNC, last_uw := 0, miss_cnt := 0 \<rparr>,
                \<lparr> codec2_out = c', proto_out = Some p', vc_out = Some v' \<rparr>, 1)"
      using d(1) run by (simp add: fvhff_deframe_bits_def)
    moreover have "fvhff_synchronized (R\<lparr> state := ST_SYNC, last_uw := 0, miss_cnt := 0 \<rparr>)"
      by (simp add: fvhff_synchronized_def)
    ultimately show ?thesis using x(2-5) by blast
  qed
qed

theorem frame_round_trip_witness:
  "fvhff_create_deframer 1 True (Some (\<lambda>_. 0)) = Some idle_deframer
   \<and> length sample_codec2 = 7 \<and> sample_codec2 ! 6 AND 0x0F = 0
   \<and> length sample_proto = 3 \<and> sample_proto ! 2 AND 0x0F = 0
   \<and> fvhff_frame_bits FREEDV_VHF_FRAME_A zero_bits sample_codec2 (Some sample_proto) (Some [0, 0])
       = Some sample_frame
   \<and> \<not> early_sync idle_deframer sample_frame
   \<and> (\<exists>d' c' p' v'.
        fvhff_deframe_bits idle_deframer
            \<lparr> codec2_out = [0, 0, 0, 0, 0, 0, 0], proto_out = Some [0, 0, 0], vc_out = Some [0, 0] \<rparr>
            sample_frame
          = Some (d', \<lparr> codec2_out = c', proto_out = Some p', vc_out = Some v' \<rparr>, 1)
        \<and> fvhff_synchronized d'
        \<and> take 7 c' = sample_codec2 \<and> take 3 p' = sample_proto
        \<and> Some (v' ! 0) = UNPACK_BIT_MSBFIRST sample_proto 18
        \<and> Some (v' ! 1) = UNPACK_BIT_MSBFIRST sample_proto 19)"
proof -
  have c: "length sample_codec2 = 7" "sample_codec2 ! 6 AND 0x0F = 0"
    by (simp_all add: sample_codec2_def)
  have p: "length sample_proto = 3" "sample_proto ! 2 AND 0x0F = 0"
    by (simp_all add: sample_proto_def)
  have v: "2 \<le> length [0, 0 :: byte]" by simp
  have b: "96 \<le> length zero_bits" by (simp add: zero_bits_def)
  have o: "7 \<le> length [0, 0, 0, 0, 0, 0, 0 :: byte]" "3 \<le> length [0, 0, 0 :: byte]"
    "2 \<le> length [0, 0 :: byte]" by simp_all
  from frame_round_trip [OF create_idle c p v b sample_frame_bits o sample_no_early_sync]
    create_idle c p sample_frame_bits sample_no_early_sync
  show ?thesis by blast
qed

text \<open>
  The claim C1 as it was stated, for every payload, fails: the first 16 bits of the payload
  \<^verbatim>\<open>67 AD 00 00 00 00 00\<close> are the UW, the deframer finds them 24 bits before the end of
  the frame and extracts there. The call returns 1 and the deframer is synchronized, but
  on the wrong bit position, and the extracted payload is \<^verbatim>\<open>00 AA 72 00 67 AD 00\<close>.
\<close>

theorem frame_round_trip_counterexample:
  "fvhff_create_deframer 1 True (Some (\<lambda>_. 0)) = Some idle_deframer
   \<and> fvhff_frame_bits FREEDV_VHF_FRAME_A zero_bits [0x67, 0xAD, 0, 0, 0, 0, 0] (Some sample_proto) (Some [0, 0])
       = Some uw_payload_frame
   \<and> fvhff_deframe_bits idle_deframer sample_outputs uw_payload_frame
       = Some (idle_deframer\<lparr> state := ST_SYNC, bits := uw_payload_frame, last_uw := 24 \<rparr>,
               \<lparr> codec2_out = [0, 170, 114, 0, 103, 173, 0], proto_out = Some [0, 0, 0],
                 vc_out = Some [0, 0] \<rparr>, 1)
   \<and> [0, 170, 114, 0, 103, 173, 0] \<noteq> [0x67, 0xAD, 0, 0, 0, 0, 0 :: byte]"
  using create_idle uw_payload_frame_bits uw_payload_call by simp

section \<open>Calls without extraction, extractions per call, ranges of the state\<close>

text \<open>
  Claim C9. Outputs untouched without extraction: if \<^verbatim>\<open>fvhff_deframe_bits\<close> returns 0,
  then \<^verbatim>\<open>fvhff_extract_frame\<close> was not called during the call and the caller's arrays
  \<^verbatim>\<open>codec2_out\<close>, \<^verbatim>\<open>proto_out\<close> and \<^verbatim>\<open>vc_out\<close> hold what they held before.
\<close>

theorem outputs_untouched_without_extraction:
  assumes "fvhff_deframe_bits d out bits_in = Some (d', out', 0)"
  shows "out' = out \<and> extraction_events d out bits_in = Some 0"
proof (cases "ftype d = FREEDV_VHF_FRAME_A")
  case False
  with assms show ?thesis by (simp add: fvhff_deframe_bits_def extraction_events_def)
next
  case True
  with assms obtain lv where
    run: "deframe_run d out bits_in = Some lv"
    and r: "lv_out lv = out'" "lv_extracted_frame lv = 0"
    by (auto simp: fvhff_deframe_bits_def bind_eq_Some_conv)
  from run_untouched [OF run [unfolded deframe_run_def]] r(2)
  have "lv_out lv = out \<and> lv_events lv = 0" by simp
  with True run r(1) show ?thesis by (simp add: extraction_events_def)
qed

theorem outputs_untouched_without_extraction_witness:
  "fvhff_deframe_bits idle_deframer sample_outputs zero_bits = Some (idle_deframer, sample_outputs, 0)
   \<and> extraction_events idle_deframer sample_outputs zero_bits = Some 0"
  using outputs_untouched_without_extraction [OF quiet_call] quiet_call by simp

text \<open>
  Claim C5, as amended. For every deframer state and every input batch, at most two of
  the per-bit steps of one call of \<^verbatim>\<open>fvhff_deframe_bits\<close> extract a frame, and at most
  one does unless the deframer enters the call synchronized with a miss count of at
  least 2 (then the extraction at the end of the countdown can lose the lock, and a
  unique word found later in the same call extracts again).
\<close>

theorem extractions_per_call:
  assumes "extraction_events d out bits_in = Some n"
  shows "n \<le> 2 \<and> (state d \<noteq> ST_SYNC \<or> miss_cnt d < 2 \<longrightarrow> n \<le> 1)"
proof (cases "ftype d = FREEDV_VHF_FRAME_A")
  case False
  with assms show ?thesis by (simp add: extraction_events_def)
next
  case True
  with assms obtain lv where
    run: "deframe_run d out bits_in = Some lv" and n: "n = lv_events lv"
    by (auto simp: extraction_events_def bind_eq_Some_conv)
  from run_events [OF run [unfolded deframe_run_def]]
  have "lv_events lv \<le> (if state d = ST_SYNC \<and> 2 \<le> miss_cnt d then 2 else 1)" by simp
  with n show ?thesis by (auto split: if_splits)
qed

theorem extractions_per_call_witness:
  "extraction_events (idle_deframer\<lparr> state := ST_SYNC \<rparr>) sample_outputs zero_bits = Some 1
   \<and> miss_cnt (idle_deframer\<lparr> state := ST_SYNC \<rparr>) < 2 \<and> (1 :: nat) \<le> 1
   \<and> extraction_events (idle_deframer\<lparr> state := ST_SYNC, last_uw := 40, miss_cnt := 2 \<rparr>)
         sample_outputs uw_at_1 = Some 2
   \<and> (2 :: nat) \<le> 2"
proof -
  have m: "miss_cnt (idle_deframer\<lparr> state := ST_SYNC \<rparr>) < 2" by (simp add: idle_deframer_def)
  from extractions_per_call [OF locked_call_events] extractions_per_call [OF drift_call_4]
    locked_call_events drift_call_4 m
  show ?thesis by simp
qed

text \<open>
  The claim C5 as it was stated, at most one extraction, fails at a reachable state. A new
  deframer is fed 96 bits that begin with the UW and synchronizes after 56 of them; two
  calls with zero bits miss the UW twice. In the fourth call the countdown runs out after
  56 bits, the third miss drops the lock with an extraction, and the next bit completes
  a UW that starts at bit 1 of this call: the deframer synchronizes and extracts again.
\<close>

theorem extractions_per_call_counterexample:
  "reachable (idle_deframer\<lparr> state := ST_SYNC, last_uw := 40, miss_cnt := 2 \<rparr>)
   \<and> length uw_at_1 = 96
   \<and> extraction_events (idle_deframer\<lparr> state := ST_SYNC, last_uw := 40, miss_cnt := 2 \<rparr>)
         sample_outputs uw_at_1 = Some 2
   \<and> \<not> (2 :: nat) \<le> 1"
  using drift_reachable drift_call_4 by (simp add: uw_at_1_def)

lemma reachable_inv:
  assumes "reachable d"
  shows "ftype d = FREEDV_VHF_FRAME_A \<and> frame_size d = 96 \<and> length (bits d) = 96
      \<and> bitptr d = 0 \<and> last_uw d < 96"
  using assms
proof (induction rule: reachable.induct)
  case (created t ok buf d)
  then show ?case by (simp add: fresh_deframer)
next
  case (called d out bits_in d' out' r)
  then have d: "ftype d = FREEDV_VHF_FRAME_A" "frame_size d = 96" "length (bits d) = 96"
    "bitptr d = 0" "last_uw d < 96" by simp_all
  from called(2) d(1) obtain lv where
    run: "deframe_run d out bits_in = Some lv"
    and d': "d' = (lv_def lv)\<lparr> state := lv_state lv, last_uw := lv_last_uw lv, miss_cnt := lv_miss_cnt lv \<rparr>"
    by (auto simp: fvhff_deframe_bits_def bind_eq_Some_conv)
  from run d(2) have loop: "deframe_loop 2 1 2 bits_in 96 0
      \<lparr> lv_def = d, lv_state = state d, lv_last_uw = last_uw d, lv_miss_cnt = miss_cnt d,
        lv_extracted_frame = 0, lv_out = out, lv_events = 0 \<rparr> = Some lv"
    by (simp add: deframe_run_def)
  from run_ring [OF d(2,3,4) loop] have ring: "lv_def lv = fed d bits_in 96" "96 \<le> length bits_in"
    by simp_all
  from run_last_uw [OF d(2,3,4) loop] d(5) have "lv_last_uw lv < 96" by simp
  with ring d show ?case by (simp add: d')
qed

text \<open>
  Claim C8. State-range invariant: for every deframer produced by
  \<^verbatim>\<open>fvhff_create_deframer\<close> and any sequence of calls of \<^verbatim>\<open>fvhff_deframe_bits\<close>, the
  stored write cursor \<^verbatim>\<open>bitptr\<close> and the stored countdown \<^verbatim>\<open>last_uw\<close> are below the
  frame size of 96 after each call, and after \<open>n\<close> input bits of a further call the cursor has
  advanced by \<open>n\<close> modulo the frame size.
\<close>

theorem state_ranges:
  assumes "reachable d"
  shows "frame_size d = 96 \<and> bitptr d < frame_size d \<and> last_uw d < frame_size d
      \<and> (\<forall>lv lv' bits_in n. lv_def lv = d \<and> n \<le> frame_size d
            \<and> deframe_loop 2 1 2 bits_in n 0 lv = Some lv'
          \<longrightarrow> bitptr (lv_def lv') = (bitptr d + n) mod frame_size d)"
proof -
  from reachable_inv [OF assms] have d: "frame_size d = 96" "length (bits d) = 96"
    "bitptr d = 0" "last_uw d < 96" by simp_all
  have "bitptr (lv_def lv') = (bitptr d + n) mod frame_size d"
    if "lv_def lv = d" "n \<le> frame_size d" "deframe_loop 2 1 2 bits_in n 0 lv = Some lv'"
    for lv lv' bits_in n
  proof -
    from that d(1) have n: "n \<le> 96" by simp
    from run_ring [OF d(1,2,3) that(3,1) n] have "lv_def lv' = fed d bits_in n" by simp
    with d(1,3) n show ?thesis by (auto simp: le_mod_geq)
  qed
  then have "\<forall>lv lv' bits_in n. lv_def lv = d \<and> n \<le> frame_size d
            \<and> deframe_loop 2 1 2 bits_in n 0 lv = Some lv'
          \<longrightarrow> bitptr (lv_def lv') = (bitptr d + n) mod frame_size d"
    by blast
  moreover have "frame_size d = 96" "bitptr d < frame_size d" "last_uw d < frame_size d"
    using d by simp_all
  ultimately show ?thesis by blast
qed

theorem state_ranges_witness:
  "reachable (idle_deframer\<lparr> state := ST_SYNC, last_uw := 40, miss_cnt := 2 \<rparr>)
   \<and> frame_size (idle_deframer\<lparr> state := ST_SYNC, last_uw := 40, miss_cnt := 2 \<rparr>) = 96
   \<and> bitptr (idle_deframer\<lparr> state := ST_SYNC, last_uw := 40, miss_cnt := 2 \<rparr>) < 96
   \<and> last_uw (idle_deframer\<lparr> state := ST_SYNC, last_uw := 40, miss_cnt := 2 \<rparr>) < 96
   \<and> (\<exists>lv'. deframe_loop 2 1 2 zero_bits 3 0
        \<lparr> lv_def = idle_deframer\<lparr> state := ST_SYNC, last_uw := 40, miss_cnt := 2 \<rparr>,
          lv_state = ST_SYNC, lv_last_uw = 40, lv_miss_cnt = 2, lv_extracted_frame = 0,
          lv_out = sample_outputs, lv_events = 0 \<rparr> = Some lv'
        \<and> bitptr (lv_def lv') = 3)"
proof -
  let ?d = "idle_deframer\<lparr> state := ST_SYNC, last_uw := 40, miss_cnt := 2 \<rparr>"
  let ?lv = "\<lparr> lv_def = ?d, lv_state = ST_SYNC, lv_last_uw = 40, lv_miss_cnt = 2,
     lv_extracted_frame = 0, lv_out = sample_outputs, lv_events = 0 \<rparr>"
  have fs: "frame_size ?d = 96" "bitptr ?d = 0" by (simp_all add: idle_deframer_def)
  from drift_loop_3 obtain lv' where
    run: "deframe_loop 2 1 2 zero_bits 3 0 ?lv = Some lv'" by auto
  from state_ranges [OF drift_reachable] have
    r: "bitptr ?d < frame_size ?d" "last_uw ?d < frame_size ?d"
    and a: "\<forall>lv lv' bits_in n. lv_def lv = ?d \<and> n \<le> frame_size ?d
            \<and> deframe_loop 2 1 2 bits_in n 0 lv = Some lv'
          \<longrightarrow> bitptr (lv_def lv') = (bitptr ?d + n) mod frame_size ?d"
    by blast+
  from a [rule_format, of ?lv 3 zero_bits lv'] run fs have "bitptr (lv_def lv') = 3" by simp
  with run r fs drift_reachable show ?thesis by auto
qed

section \<open>Padding bits of the packed outputs\<close>

text \<open>
  Claim C10. Packed-output padding bits are zero: whenever \<^verbatim>\<open>fvhff_extract_frame\<close> runs
  for type A, the 4 low-order bits of \<^verbatim>\<open>codec2_out[6]\<close> are zero, and when
  \<^verbatim>\<open>proto_out\<close> is supplied the 4 low-order bits of \<^verbatim>\<open>proto_out[2]\<close> are zero.
\<close>

theorem packed_padding_zero:
  assumes "ftype d = FREEDV_VHF_FRAME_A" "fvhff_extract_frame d out = Some out'"
  shows "codec2_out out' ! 6 AND 0x0F = 0
      \<and> (\<forall>p. proto_out out' = Some p \<longrightarrow> p ! 2 AND 0x0F = 0)"
proof -
  from assms obtain c v p where
    c: "extract_codec2 d (codec2_out out) = Some c"
    and p: "(case proto_out out of None \<Rightarrow> Some None
         | Some proto \<Rightarrow> extract_proto d proto \<bind> (\<lambda>proto. Some (Some proto))) = Some p"
    and o: "out' = \<lparr> codec2_out = c, proto_out = p, vc_out = v \<rparr>"
    by (auto simp: fvhff_extract_frame_def bind_eq_Some_conv)
  have "c ! 6 AND 0x0F = 0"
  proof (rule low_nibble_zero)
    fix m assume "bit (c ! 6) m"
    with cleared_field [OF c [unfolded extract_codec2_def], of 6 m]
    have "m < 8 \<and> 8 * 6 + 7 - m < 24 + 28" by simp
    then show "4 \<le> m" by arith
  qed
  moreover have "q ! 2 AND 0x0F = 0" if "p = Some q" for q
  proof (rule low_nibble_zero)
    fix m assume b: "bit (q ! 2) m"
    from p that obtain po where "proto_out out = Some po" "extract_proto d po = Some q"
      by (auto simp: bind_eq_Some_conv split: option.splits)
    with cleared_field [OF this(2) [unfolded extract_proto_def], of 2 m] b
    have "m < 8 \<and> 8 * 2 + 7 - m < 12 + 8" by simp
    then show "4 \<le> m" by arith
  qed
  ultimately show ?thesis by (simp add: o)
qed

theorem packed_padding_zero_witness:
  "ftype (idle_deframer\<lparr> bits := one_bits \<rparr>) = FREEDV_VHF_FRAME_A
   \<and> fvhff_extract_frame (idle_deframer\<lparr> bits := one_bits \<rparr>) sample_outputs
       = Some \<lparr> codec2_out = [255, 255, 255, 255, 255, 255, 240],
                proto_out = Some [255, 255, 240], vc_out = Some [1, 1] \<rparr>
   \<and> [255, 255, 255, 255, 255, 255, 240 :: byte] ! 6 AND 0x0F = 0
   \<and> [255, 255, 240 :: byte] ! 2 AND 0x0F = 0"
proof -
  have t: "ftype (idle_deframer\<lparr> bits := one_bits \<rparr>) = FREEDV_VHF_FRAME_A"
    by (simp add: idle_deframer_def)
  from packed_padding_zero [OF t ones_extracted] t ones_extracted show ?thesis by simp
qed

section \<open>Keeping and acquiring synchronization\<close>

text \<open>
  Claim C3. Sync hysteresis: a deframer that is synchronized, has a miss count of 0 and
  stands at a frame boundary (countdown 0, cursor 0) is fed three frames whose 16 UW bits
  are all flipped, the other bits being arbitrary. After the first and the second frame
  it is still synchronized, after the third it is unsynchronized; each of the three calls
  returns 1 and leaves the fields of its frame in the outputs: the 52 payload bits at
  the frame bits 16 to 39 and 56 to 83 and, where requested, the 20 protocol bits at
  the frame bits 4 to 15 and 84 to 91, packed MSB first with zero padding, and the
  frame entries 90 and 91 as side-channel bytes.
\<close>

theorem sync_hysteresis:
  assumes d: "ftype d = FREEDV_VHF_FRAME_A" "frame_size d = 96" "length (bits d) = 96" "bitptr d = 0"
    and s: "state d = ST_SYNC" "miss_cnt d = 0" "last_uw d = 0"
    and f1: "96 \<le> length f1" "uw_flipped f1"
    and f2: "96 \<le> length f2" "uw_flipped f2"
    and f3: "96 \<le> length f3" "uw_flipped f3"
    and o: "outputs_ok out"
  shows "\<exists>d1 o1 d2 o2 d3 o3.
      fvhff_deframe_bits d out f1 = Some (d1, o1, 1) \<and> fvhff_synchronized d1
        \<and> fvhff_extract_frame (fed d f1 96) out = Some o1 \<and> holds_fields o1 f1
    \<and> fvhff_deframe_bits d1 o1 f2 = Some (d2, o2, 1) \<and> fvhff_synchronized d2
        \<and> fvhff_extract_frame (fed d1 f2 96) o1 = Some o2 \<and> holds_fields o2 f2
    \<and> fvhff_deframe_bits d2 o2 f3 = Some (d3, o3, 1) \<and> state d3 = ST_NOSYNC
        \<and> fvhff_extract_frame (fed d2 f3 96) o2 = Some o3 \<and> holds_fields o3 f3"
proof -
  define d1 where "d1 = (fed d f1 96)\<lparr> state := ST_SYNC, last_uw := 0, miss_cnt := 1 \<rparr>"
  define d2 where "d2 = (fed d1 f2 96)\<lparr> state := ST_SYNC, last_uw := 0, miss_cnt := 2 \<rparr>"
  define d3 where "d3 = (fed d2 f3 96)\<lparr> state := ST_NOSYNC, last_uw := 0, miss_cnt := 3 \<rparr>"
  from sync_miss_call [OF d s(1,3) f1 o] s(2) obtain o1 where
    1: "fvhff_extract_frame (fed d f1 96) out = Some o1" "outputs_ok o1"
       "fvhff_deframe_bits d out f1 = Some (d1, o1, 1)"
    by (auto simp: d1_def)
  have i1: "ftype d1 = FREEDV_VHF_FRAME_A" "frame_size d1 = 96" "length (bits d1) = 96" "bitptr d1 = 0"
    "state d1 = ST_SYNC" "last_uw d1 = 0" "miss_cnt d1 = 1"
    using d f1(1) by (simp_all add: d1_def)
  from sync_miss_call [OF i1(1-6) f2 1(2)] i1(7) obtain o2 where
    2: "fvhff_extract_frame (fed d1 f2 96) o1 = Some o2" "outputs_ok o2"
       "fvhff_deframe_bits d1 o1 f2 = Some (d2, o2, 1)"
    by (auto simp: d2_def)
  have i2: "ftype d2 = FREEDV_VHF_FRAME_A" "frame_size d2 = 96" "length (bits d2) = 96" "bitptr d2 = 0"
    "state d2 = ST_SYNC" "last_uw d2 = 0" "miss_cnt d2 = 2"
    using i1 f2(1) by (simp_all add: d2_def)
  from sync_miss_call [OF i2(1-6) f3 2(2)] i2(7) obtain o3 where
    3: "fvhff_extract_frame (fed d2 f3 96) o2 = Some o3"
       "fvhff_deframe_bits d2 o2 f3 = Some (d3, o3, 1)"
    by (auto simp: d3_def)
  have s: "fvhff_synchronized d1" "fvhff_synchronized d2" "state d3 = ST_NOSYNC"
    by (simp_all add: fvhff_synchronized_def d1_def d2_def d3_def)
  have h: "holds_fields o1 f1" "holds_fields o2 f2" "holds_fields o3 f3"
    using aligned_extraction [OF d(1,2,3) f1(1) o 1(1)]
      aligned_extraction [OF i1(1,2,3) f2(1) 1(2) 2(1)]
      aligned_extraction [OF i2(1,2,3) f3(1) 2(2) 3(1)]
    by simp_all
  from 1(3,1) h(1) s(1) 2(3,1) h(2) s(2) 3(2,1) h(3) s(3) show ?thesis by blast
qed

theorem sync_hysteresis_witness:
  "ftype (idle_deframer\<lparr> state := ST_SYNC \<rparr>) = FREEDV_VHF_FRAME_A
   \<and> frame_size (idle_deframer\<lparr> state := ST_SYNC \<rparr>) = 96
   \<and> length (bits (idle_deframer\<lparr> state := ST_SYNC \<rparr>)) = 96
   \<and> bitptr (idle_deframer\<lparr> state := ST_SYNC \<rparr>) = 0
   \<and> state (idle_deframer\<lparr> state := ST_SYNC \<rparr>) = ST_SYNC
   \<and> miss_cnt (idle_deframer\<lparr> state := ST_SYNC \<rparr>) = 0
   \<and> last_uw (idle_deframer\<lparr> state := ST_SYNC \<rparr>) = 0
   \<and> 96 \<le> length bad_uw_frame \<and> uw_flipped bad_uw_frame \<and> outputs_ok sample_outputs
   \<and> (\<exists>d1 o1 d2 o2 d3 o3.
      fvhff_deframe_bits (idle_deframer\<lparr> state := ST_SYNC \<rparr>) sample_outputs bad_uw_frame = Some (d1, o1, 1)
        \<and> fvhff_synchronized d1
        \<and> fvhff_extract_frame (fed (idle_deframer\<lparr> state := ST_SYNC \<rparr>) bad_uw_frame 96) sample_outputs = Some o1
        \<and> holds_fields o1 bad_uw_frame
      \<and> fvhff_deframe_bits d1 o1 bad_uw_frame = Some (d2, o2, 1) \<and> fvhff_synchronized d2
        \<and> fvhff_extract_frame (fed d1 bad_uw_frame 96) o1 = Some o2
        \<and> holds_fields o2 bad_uw_frame
      \<and> fvhff_deframe_bits d2 o2 bad_uw_frame = Some (d3, o3, 1) \<and> state d3 = ST_NOSYNC
        \<and> fvhff_extract_frame (fed d2 bad_uw_frame 96) o2 = Some o3
        \<and> holds_fields o3 bad_uw_frame)
   \<and> fvhff_deframe_bits (idle_deframer\<lparr> state := ST_SYNC \<rparr>) sample_outputs bad_uw_frame
       = Some (idle_deframer\<lparr> state := ST_SYNC, bits := bad_uw_frame, miss_cnt := 1 \<rparr>,
               sample_extracted, 1)
   \<and> fvhff_deframe_bits (idle_deframer\<lparr> state := ST_SYNC, bits := bad_uw_frame, miss_cnt := 1 \<rparr>)
         sample_extracted bad_uw_frame
       = Some (idle_deframer\<lparr> state := ST_SYNC, bits := bad_uw_frame, miss_cnt := 2 \<rparr>,
               sample_extracted, 1)
   \<and> fvhff_deframe_bits (idle_deframer\<lparr> state := ST_SYNC, bits := bad_uw_frame, miss_cnt := 2 \<rparr>)
         sample_extracted bad_uw_frame
       = Some (idle_deframer\<lparr> bits := bad_uw_frame, miss_cnt := 3 \<rparr>, sample_extracted, 1)
   \<and> holds_fields sample_extracted bad_uw_frame"
proof -
  have d: "ftype (idle_deframer\<lparr> state := ST_SYNC \<rparr>) = FREEDV_VHF_FRAME_A"
    "frame_size (idle_deframer\<lparr> state := ST_SYNC \<rparr>) = 96"
    "length (bits (idle_deframer\<lparr> state := ST_SYNC \<rparr>)) = 96"
    "bitptr (idle_deframer\<lparr> state := ST_SYNC \<rparr>) = 0"
    "state (idle_deframer\<lparr> state := ST_SYNC \<rparr>) = ST_SYNC"
    "miss_cnt (idle_deframer\<lparr> state := ST_SYNC \<rparr>) = 0"
    "last_uw (idle_deframer\<lparr> state := ST_SYNC \<rparr>) = 0"
    by (simp_all add: idle_deframer_def zero_bits_def)
  have f: "96 \<le> length bad_uw_frame" "uw_flipped bad_uw_frame"
    by (simp_all add: bad_uw_frame_def uw_flipped_def A_uw_def)
  have o: "outputs_ok sample_outputs" by (simp add: outputs_ok_def sample_outputs_def)
  note t = sync_hysteresis [OF d f f f o]
  from t obtain d1 o1 where
    "fvhff_deframe_bits (idle_deframer\<lparr> state := ST_SYNC \<rparr>) sample_outputs bad_uw_frame = Some (d1, o1, 1)"
    "holds_fields o1 bad_uw_frame"
    by blast
  with bad_uw_call_1 have e: "holds_fields sample_extracted bad_uw_frame" by simp
  from d f o t bad_uw_call_1 bad_uw_call_2 bad_uw_call_3 e show ?thesis by (intro conjI)
qed



section \<open>The side-channel bits at the end of the ring\<close>

text \<open>
  Claim C2 says that every read of \<^verbatim>\<open>fvhff_extract_frame\<close> is at a wrapped index inside
  the ring, the second side-channel bit included. The code wraps the index of the first
  side-channel bit only (lemma \<open>extract_vc_eq\<close>): with the cursor at 5 the first bit is
  read at 95 and the second at 96, behind the ring of 96 bytes. A new deframer reaches
  this state when the UW arrives at the bits 45 to 60 of the first call: the second call
  synchronizes after 5 bits and extracts with the cursor at 5.
\<close>

theorem side_channel_read_outside_ring:
  "fvhff_create_deframer 1 True (Some (\<lambda>_. 0)) = Some idle_deframer
   \<and> fvhff_deframe_bits idle_deframer sample_outputs uw_at_45
       = Some (idle_deframer\<lparr> bits := uw_at_45 \<rparr>, sample_outputs, 0)
   \<and> fvhff_deframe_bits (idle_deframer\<lparr> bits := uw_at_45 \<rparr>) sample_outputs zero_bits = None
   \<and> fvhff_extract_frame (idle_deframer\<lparr> bits := uw_at_45, bitptr := 5 \<rparr>) sample_outputs = None
   \<and> field_start (idle_deframer\<lparr> bits := uw_at_45, bitptr := 5 \<rparr>) 90 + 1 = 96
   \<and> length (bits (idle_deframer\<lparr> bits := uw_at_45, bitptr := 5 \<rparr>)) = 96"
  using create_idle offset_call_1 offset_call_2 cursor_5_extraction
  by (simp add: field_start_def idle_deframer_def uw_at_45_def)

end
